theory Spec2Isabelle
  imports Main "HOL-Library.Word"
begin

section \<open>SMBIOS discovery in memtest86plus (system/smbios.c)\<close>

text \<open>
  The file runs before any operating system, on flat physical memory. Memory is a
  total function from addresses to bytes. A pointer (\<^verbatim>\<open>char *\<close>, \<^verbatim>\<open>uintptr_t\<close>)
  is a natural number: C leaves pointer overflow undefined, and no function of the
  file computes an address downwards except \<^verbatim>\<open>*(a - 1)\<close> in the string decoder,
  which is only evaluated after \<^verbatim>\<open>a++\<close>. The null pointer is address 0.
\<close>

type_synonym mem = "nat \<Rightarrow> 8 word"

subsection \<open>struct tstruct\_header (packed): type at offset 0, length at offset 1\<close>

definition hdr_type :: "mem \<Rightarrow> nat \<Rightarrow> 8 word" where
  "hdr_type m header = m header"

definition hdr_length :: "mem \<Rightarrow> nat \<Rightarrow> 8 word" where
  "hdr_length m header = m (header + 1)"

subsection \<open>get\_tstruct\_string\<close>

text \<open>
  The do-while loop of \<^verbatim>\<open>get_tstruct_string\<close>, entered with \<^verbatim>\<open>a\<close> and the
  already decremented \<^verbatim>\<open>n\<close>. One unfolding is one pass through the body followed
  by the loop test on the incremented pointer: \<^verbatim>\<open>*a == 0 && *(a - 1) == 0\<close> after
  \<^verbatim>\<open>a++\<close> reads the bytes at \<open>a + 1\<close> and \<open>a\<close> of the pass. The scan has no bound
  of its own, so the loop is a partial function: \<open>None\<close> is "never returns".
  \<open>Some 0\<close> is the null pointer. \<^verbatim>\<open>n\<close> is a C \<^verbatim>\<open>int\<close>, a 32-bit word here.
\<close>

partial_function (option) tstruct_string_loop :: "mem \<Rightarrow> nat \<Rightarrow> 32 word \<Rightarrow> nat option" where
  "tstruct_string_loop m a n =
     (if (if m a = 0 then n - 1 else n) = 0 \<and> m a \<noteq> 0 then Some a
      else if m (a + 1) = 0 \<and> m a = 0 then Some 0
      else tstruct_string_loop m (a + 1) (if m a = 0 then n - 1 else n))"

definition get_tstruct_string :: "mem \<Rightarrow> nat \<Rightarrow> 32 word \<Rightarrow> nat option" where
  "get_tstruct_string m header n =
     (if sint n < 1 then Some 0
      else tstruct_string_loop m (header + unat (hdr_length m header)) (n - 1))"

subsection \<open>The string area as the specification describes it\<close>

text \<open>
  Data model of the specification: a structure's fixed portion is followed by "a
  sequence of NUL-terminated strings, the whole area terminated by two consecutive
  NUL bytes". An area without strings is the two NUL bytes alone.
\<close>

definition spec_string_area :: "8 word list list \<Rightarrow> 8 word list" where
  "spec_string_area strs =
     (if strs = [] then [0, 0] else concat (map (\<lambda>s. s @ [0]) strs) @ [0])"

text \<open>
  The address of string number \<open>i\<close> (counted from 0) of an area that starts at \<open>a\<close>:
  the strings before it, each with its terminating NUL, lie in between.
\<close>

definition string_addr :: "nat \<Rightarrow> 8 word list list \<Rightarrow> nat \<Rightarrow> nat" where
  "string_addr a strs i = a + length (concat (map (\<lambda>s. s @ [0]) (take i strs)))"

text \<open>\<open>loaded m a bs\<close>: the bytes \<open>bs\<close> stand in memory from address \<open>a\<close> on.\<close>

primrec loaded :: "mem \<Rightarrow> nat \<Rightarrow> 8 word list \<Rightarrow> bool" where
  "loaded m a [] = True"
| "loaded m a (b # bs) = (m a = b \<and> loaded m (Suc a) bs)"

text \<open>
  Example memories: the listed regions hold the listed bytes (the first region that
  covers an address wins), every other byte is zero.
\<close>

fun mem_of_regions :: "(nat \<times> 8 word list) list \<Rightarrow> mem" where
  "mem_of_regions [] a = 0"
| "mem_of_regions ((base, bs) # rs) a =
     (if base \<le> a \<and> a < base + length bs then bs ! (a - base) else mem_of_regions rs a)"

definition str_Acme :: "8 word list" where
  "str_Acme = [0x41, 0x63, 0x6D, 0x65]"

definition str_Board_X :: "8 word list" where
  "str_Board_X = [0x42, 0x6F, 0x61, 0x72, 0x64, 0x2D, 0x58]"

text \<open>A structure at 0x1000 with an 8-byte fixed portion and the two strings.\<close>

definition acme_mem :: mem where
  "acme_mem = mem_of_regions
     [(0x1000, [2, 8, 0x34, 0x12, 1, 2, 0, 0] @ spec_string_area [str_Acme, str_Board_X])]"


subsection \<open>The entry point structure smbios\_t\<close>

text \<open>
  \<^verbatim>\<open>smbios_t\<close> is not packed, but every field already lies on its natural
  alignment, so the x86 layout has no padding before \<^verbatim>\<open>SMBIOSrev\<close>:
  anchor 0..3, checksum 4, length 5, majorversion 6, minorversion 7, maxstructsize 8,
  revision 10, pad 11..15, intanchor 16..20, intchecksum 21, tablelength 22,
  tableaddress 24, numstructs 28, SMBIOSrev 30. Multi-byte fields are little-endian.
\<close>

definition le16 :: "mem \<Rightarrow> nat \<Rightarrow> 16 word" where
  "le16 m a = of_nat (unat (m a) + 256 * unat (m (a + 1)))"

definition le32 :: "mem \<Rightarrow> nat \<Rightarrow> 32 word" where
  "le32 m a = of_nat (unat (m a) + 256 * unat (m (a + 1)) + 65536 * unat (m (a + 2))
                      + 16777216 * unat (m (a + 3)))"

definition eps_length :: "mem \<Rightarrow> nat \<Rightarrow> 8 word" where
  "eps_length m eps = m (eps + 5)"

definition eps_majorversion :: "mem \<Rightarrow> nat \<Rightarrow> 8 word" where
  "eps_majorversion m eps = m (eps + 6)"

definition eps_minorversion :: "mem \<Rightarrow> nat \<Rightarrow> 8 word" where
  "eps_minorversion m eps = m (eps + 7)"

definition eps_tablelength :: "mem \<Rightarrow> nat \<Rightarrow> 16 word" where
  "eps_tablelength m eps = le16 m (eps + 22)"

definition eps_tableaddress :: "mem \<Rightarrow> nat \<Rightarrow> 32 word" where
  "eps_tableaddress m eps = le32 m (eps + 24)"

definition eps_numstructs :: "mem \<Rightarrow> nat \<Rightarrow> 16 word" where
  "eps_numstructs m eps = le16 m (eps + 28)"

subsection \<open>Boot parameters, EFI tables and the region mapper\<close>

text \<open>
  \<^verbatim>\<open>bootparams.h\<close>, \<^verbatim>\<open>efi.h\<close> and \<^verbatim>\<open>vmem.h\<close> are not among the sources. What
  \<^verbatim>\<open>smbios.c\<close> uses of them is a parameter of the model, collected in the record
  \<open>platform\<close>: the two loader signatures, the \<^verbatim>\<open>sizeof\<close> of the four EFI
  structures, \<^verbatim>\<open>map_region\<close> (0 is failure), what a mapped system table and a
  mapped configuration table entry hold, and whether \<^verbatim>\<open>__x86_64__\<close> is defined.
  Of \<^verbatim>\<open>boot_params->efi_info\<close> the three fields the file reads are kept.
\<close>

record efi_guid =
  data1 :: "32 word"
  data2 :: "16 word"
  data3 :: "16 word"
  data4 :: "8 word list"

definition SMBIOS2_GUID :: efi_guid where
  "SMBIOS2_GUID = \<lparr>data1 = 0xeb9d2d31, data2 = 0x2d88, data3 = 0x11d3,
                    data4 = [0x9a, 0x16, 0x00, 0x90, 0x27, 0x3f, 0xc1, 0x4d]\<rparr>"

record efi_config_table =
  guid :: efi_guid
  table :: nat

record efi_system_table =
  num_config_tables :: nat
  config_tables :: nat

record efi_info =
  loader_signature :: "32 word"
  sys_tab :: "32 word"
  sys_tab_hi :: "32 word"

record platform =
  x86_64 :: bool
  EFI32_LOADER_SIGNATURE :: "32 word"
  EFI64_LOADER_SIGNATURE :: "32 word"
  map_region :: "nat \<Rightarrow> nat \<Rightarrow> bool \<Rightarrow> nat"
  sizeof_efi32_system_table_t :: nat
  sizeof_efi64_system_table_t :: nat
  sizeof_efi32_config_table_t :: nat
  sizeof_efi64_config_table_t :: nat
  efi32_system_table :: "nat \<Rightarrow> efi_system_table"
  efi64_system_table :: "nat \<Rightarrow> efi_system_table"
  efi32_config_table :: "nat \<Rightarrow> nat \<Rightarrow> efi_config_table"
  efi64_config_table :: "nat \<Rightarrow> nat \<Rightarrow> efi_config_table"

text \<open>\<^verbatim>\<open>size_t\<close> arithmetic wraps at the width of the target.\<close>

definition size_t_max :: "platform \<Rightarrow> nat" where
  "size_t_max pf = (if x86_64 pf then 2 ^ 64 else 2 ^ 32)"

text \<open>
  The loop over the configuration tables. \<open>entry i\<close> is \<^verbatim>\<open>config_tables[i]\<close>;
  \<^verbatim>\<open>memcmp(..) == 0\<close> over the 16 bytes of a GUID is equality of GUIDs. The
  counter \<^verbatim>\<open>i\<close> is a \<^verbatim>\<open>uint32_t\<close> and wraps, the count is whatever the system
  table declares: the loop is a partial function.
\<close>

partial_function (option) efi_config_loop ::
  "(nat \<Rightarrow> efi_config_table) \<Rightarrow> nat \<Rightarrow> 32 word \<Rightarrow> nat \<Rightarrow> nat option" where
  "efi_config_loop entry num i table_addr =
     (if unat i < num
      then efi_config_loop entry num (i + 1)
             (if guid (entry (unat i)) = SMBIOS2_GUID then table (entry (unat i)) else table_addr)
      else Some table_addr)"

definition find_smbios_in_efi64_system_table :: "platform \<Rightarrow> nat \<Rightarrow> nat option" where
  "find_smbios_in_efi64_system_table pf system_table =
     (let st = efi64_system_table pf system_table;
          config_tables = map_region pf (config_tables st)
            ((num_config_tables st * sizeof_efi64_config_table_t pf) mod size_t_max pf) True
      in if config_tables = 0 then Some 0
         else efi_config_loop (efi64_config_table pf config_tables) (num_config_tables st) 0 0)"

definition find_smbios_in_efi32_system_table :: "platform \<Rightarrow> nat \<Rightarrow> nat option" where
  "find_smbios_in_efi32_system_table pf system_table =
     (let st = efi32_system_table pf system_table;
          config_tables = map_region pf (config_tables st)
            ((num_config_tables st * sizeof_efi32_config_table_t pf) mod size_t_max pf) True
      in if config_tables = 0 then Some 0
         else efi_config_loop (efi32_config_table pf config_tables) (num_config_tables st) 0 0)"

subsection \<open>find\_smbios\_adr\<close>

text \<open>
  The legacy scan, entered with \<^verbatim>\<open>dmi = dmi_search_start = 0x000F0000\<close>. The
  characters are \<^verbatim>\<open>'_'\<close> = 0x5F, \<^verbatim>\<open>'S'\<close> = 0x53, \<^verbatim>\<open>'M'\<close> = 0x4D. The else
  branch is the \<^verbatim>\<open>return 0\<close> that ends the function.
\<close>

function bios_scan :: "mem \<Rightarrow> nat \<Rightarrow> nat" where
  "bios_scan m dmi =
     (if dmi < 0x000F0000 + 0xffff0
      then (if m dmi = 0x5F \<and> m (dmi + 1) = 0x53 \<and> m (dmi + 2) = 0x4D \<and> m (dmi + 3) = 0x5F
            then dmi
            else bios_scan m (dmi + 16))
      else 0)"
  by pat_completeness auto
termination
  by (relation "measure (\<lambda>(m, dmi). 0x000F0000 + 0xffff0 - dmi)") auto

declare bios_scan.simps [simp del]

text \<open>The system table addresses the two EFI branches end up with (0: mapping failed).\<close>

definition efi32_system_table_addr :: "platform \<Rightarrow> efi_info \<Rightarrow> nat" where
  "efi32_system_table_addr pf ei =
     map_region pf
       (map_region pf (unat (sys_tab ei)) (sizeof_efi32_system_table_t pf) True)
       (sizeof_efi32_system_table_t pf) True"

definition efi64_system_table_addr :: "platform \<Rightarrow> efi_info \<Rightarrow> nat" where
  "efi64_system_table_addr pf ei =
     map_region pf (unat (sys_tab_hi ei) * 2 ^ 32 + unat (sys_tab ei))
       (sizeof_efi64_system_table_t pf) True"

text \<open>
  \<open>find_smbios_adr_path\<close> is \<^verbatim>\<open>find_smbios_adr\<close> with a tag that names the branch
  whose \<^verbatim>\<open>return\<close> produced the address: line 114 (EFI32), line 126 (EFI64), or the
  legacy block with the final \<^verbatim>\<open>return 0\<close> (BIOS). \<^verbatim>\<open>rp\<close> is assigned only
  immediately before a \<^verbatim>\<open>return\<close>, so each test \<^verbatim>\<open>rp == NULL\<close> is true where it
  stands and is left out.
\<close>

datatype strategy = EFI32 | EFI64 | BIOS

definition find_smbios_adr_path :: "platform \<Rightarrow> efi_info \<Rightarrow> mem \<Rightarrow> (strategy \<times> nat) option" where
  "find_smbios_adr_path pf ei m =
     (if loader_signature ei = EFI32_LOADER_SIGNATURE pf \<and> efi32_system_table_addr pf ei \<noteq> 0
      then map_option (Pair EFI32)
             (find_smbios_in_efi32_system_table pf (efi32_system_table_addr pf ei))
      else if x86_64 pf \<and> loader_signature ei = EFI64_LOADER_SIGNATURE pf
                \<and> efi64_system_table_addr pf ei \<noteq> 0
      then map_option (Pair EFI64)
             (find_smbios_in_efi64_system_table pf (efi64_system_table_addr pf ei))
      else Some (BIOS, bios_scan m 0x000F0000))"

definition find_smbios_adr :: "platform \<Rightarrow> efi_info \<Rightarrow> mem \<Rightarrow> nat option" where
  "find_smbios_adr pf ei m = map_option snd (find_smbios_adr_path pf ei m)"

subsection \<open>smbios\_init\<close>

text \<open>
  The checksum loop \<^verbatim>\<open>for (; dmi < (dmi_start + eps->length); dmi++)\<close>: it has no
  initialising clause, so it starts from whatever \<^verbatim>\<open>dmi\<close> holds. \<open>lim\<close> is
  \<^verbatim>\<open>dmi_start + eps->length\<close>; \<^verbatim>\<open>checksum\<close> is an \<^verbatim>\<open>int8_t\<close> and wraps.
\<close>

function checksum_loop :: "mem \<Rightarrow> nat \<Rightarrow> nat \<Rightarrow> 8 word \<Rightarrow> 8 word" where
  "checksum_loop m dmi lim checksum =
     (if dmi < lim then checksum_loop m (dmi + 1) lim (checksum + m dmi) else checksum)"
  by pat_completeness auto
termination
  by (relation "measure (\<lambda>(m, dmi, lim, checksum). lim - dmi)") auto

declare checksum_loop.simps [simp del]

text \<open>
  What the walk leaves behind: the global \<^verbatim>\<open>dmi_system_info\<close>, the local
  \<^verbatim>\<open>tstruct_count\<close>, and (kept for the proofs only) the set of addresses the walk
  has dereferenced through \<^verbatim>\<open>dmi\<close> and \<^verbatim>\<open>header\<close>. The fields of the entry
  point, read through \<^verbatim>\<open>eps\<close>, are not in that set.
\<close>

record walk_state =
  dmi_system_info :: nat
  tstruct_count :: nat
  reads :: "nat set"

text \<open>
  The inner loop \<^verbatim>\<open>while (!(*dmi == 0 && *(dmi + 1) == 0)) dmi++;\<close>. The second
  byte is read only when the first is zero. It returns the address of the first of
  the two NUL bytes; nothing bounds it, so it is a partial function.
\<close>

partial_function (option) skip_to_double_nul ::
  "mem \<Rightarrow> nat \<Rightarrow> nat set \<Rightarrow> (nat \<times> nat set) option" where
  "skip_to_double_nul m dmi rs =
     (if m dmi = 0
      then (if m (dmi + 1) = 0 then Some (dmi, insert (dmi + 1) (insert dmi rs))
            else skip_to_double_nul m (dmi + 1) (insert (dmi + 1) (insert dmi rs)))
      else skip_to_double_nul m (dmi + 1) (insert dmi rs))"

text \<open>
  The outer loop \<^verbatim>\<open>while (dmi < (table_start + eps->tablelength))\<close>; \<open>table_end\<close>
  is its bound. The result is the value \<^verbatim>\<open>smbios_init\<close> returns (0 or -1) with the
  state at that point. A pass reads \<^verbatim>\<open>header->type\<close> at \<open>dmi\<close> and
  \<^verbatim>\<open>header->length\<close> at \<open>dmi + 1\<close>. The counter is an \<^verbatim>\<open>int\<close> that never
  passes \<open>numstructs + 1\<close>, at most 65536: a natural number.
\<close>

function table_walk ::
  "mem \<Rightarrow> nat \<Rightarrow> nat \<Rightarrow> nat \<Rightarrow> walk_state \<Rightarrow> (int \<times> walk_state) option" where
  "table_walk m table_end numstructs dmi s =
     (if dmi < table_end
      then (case skip_to_double_nul m (dmi + unat (hdr_length m dmi))
                   (insert (dmi + 1) (insert dmi (reads s))) of
              None \<Rightarrow> None
            | Some (q, rs) \<Rightarrow>
                if tstruct_count s + 1 > numstructs
                then Some (- 1,
                       \<lparr>dmi_system_info = (if hdr_type m dmi = 2 then dmi else dmi_system_info s),
                        tstruct_count = tstruct_count s + 1, reads = rs\<rparr>)
                else table_walk m table_end numstructs (q + 2)
                       \<lparr>dmi_system_info = (if hdr_type m dmi = 2 then dmi else dmi_system_info s),
                        tstruct_count = tstruct_count s + 1, reads = rs\<rparr>)
      else Some (0, s))"
  by pat_completeness auto
termination
  by (relation "measure (\<lambda>(m, table_end, numstructs, dmi, s). numstructs - tstruct_count s)")
     auto

declare table_walk.simps [simp del]

text \<open>
  \<^verbatim>\<open>smbios_init\<close>. \<open>dmi0\<close> is the value the uninitialised local \<^verbatim>\<open>dmi\<close> holds
  when the checksum loop is reached, \<open>g0\<close> the value of the global
  \<^verbatim>\<open>dmi_system_info\<close> before the call. \<open>None\<close>: the call does not return.
\<close>

definition smbios_init ::
  "platform \<Rightarrow> efi_info \<Rightarrow> mem \<Rightarrow> nat \<Rightarrow> nat \<Rightarrow> (int \<times> walk_state) option" where
  "smbios_init pf ei m dmi0 g0 =
     (case find_smbios_adr pf ei m of
        None \<Rightarrow> None
      | Some smb_adr \<Rightarrow>
          if smb_adr = 0
          then Some (- 1, \<lparr>dmi_system_info = g0, tstruct_count = 0, reads = {}\<rparr>)
          else if checksum_loop m dmi0 (smb_adr + unat (eps_length m smb_adr)) 0 \<noteq> 0
          then Some (- 1, \<lparr>dmi_system_info = g0, tstruct_count = 0, reads = {}\<rparr>)
          else if eps_majorversion m smb_adr < 2 \<and> eps_minorversion m smb_adr < 3
          then Some (- 1, \<lparr>dmi_system_info = g0, tstruct_count = 0, reads = {}\<rparr>)
          else table_walk m
                 (unat (eps_tableaddress m smb_adr) + unat (eps_tablelength m smb_adr))
                 (unat (eps_numstructs m smb_adr))
                 (unat (eps_tableaddress m smb_adr))
                 \<lparr>dmi_system_info = g0, tstruct_count = 0, reads = {}\<rparr>)"

subsection \<open>The structure table as the specification describes it\<close>

text \<open>
  Data model of the specification: a structure is a header (type code, length of the
  fixed portion, handle) and type-specific fixed fields, "followed immediately in
  memory by" its string area; the table is the structures in sequence. The strings
  of a well-formed structure are non-empty and free of NUL bytes, and the length of
  its fixed portion fits the header's length byte.
\<close>

record tstruct =
  stype :: "8 word"
  handle :: "16 word"
  fixed_fields :: "8 word list"
  strings :: "8 word list list"

definition spec_fixed_part :: "tstruct \<Rightarrow> 8 word list" where
  "spec_fixed_part s =
     [stype s, of_nat (4 + length (fixed_fields s)), ucast (handle s), ucast (drop_bit 8 (handle s))]
     @ fixed_fields s"

definition spec_encode_struct :: "tstruct \<Rightarrow> 8 word list" where
  "spec_encode_struct s = spec_fixed_part s @ spec_string_area (strings s)"

definition spec_encode_table :: "tstruct list \<Rightarrow> 8 word list" where
  "spec_encode_table ss = concat (map spec_encode_struct ss)"

definition wf_strings :: "8 word list list \<Rightarrow> bool" where
  "wf_strings strs = (\<forall>str \<in> set strs. str \<noteq> [] \<and> 0 \<notin> set str)"

definition wf_tstruct :: "tstruct \<Rightarrow> bool" where
  "wf_tstruct s = (4 + length (fixed_fields s) < 256 \<and> wf_strings (strings s))"

text \<open>The address of structure number \<open>k\<close> (from 0) of a table encoded at \<open>base\<close>.\<close>

definition struct_addr :: "nat \<Rightarrow> tstruct list \<Rightarrow> nat \<Rightarrow> nat" where
  "struct_addr base ss k = base + length (spec_encode_table (take k ss))"

text \<open>
  The walk over the abstract table: one equation per structure, the effect on the
  state written with the structure's own data. The proofs relate \<open>table_walk\<close> on
  an encoded table to it.
\<close>

definition struct_reads :: "nat \<Rightarrow> tstruct \<Rightarrow> nat set" where
  "struct_reads p x =
     {p, p + 1} \<union> {p + length (spec_fixed_part x) ..< p + length (spec_encode_struct x)}"

text \<open>
  The addresses a walk over all of a table encoded at \<open>p\<close> reads: of each structure
  the two header bytes and the string area.
\<close>

fun table_reads :: "nat \<Rightarrow> tstruct list \<Rightarrow> nat set" where
  "table_reads p [] = {}"
| "table_reads p (x # xs) =
     struct_reads p x \<union> table_reads (p + length (spec_encode_struct x)) xs"

fun abs_walk :: "nat \<Rightarrow> nat \<Rightarrow> tstruct list \<Rightarrow> walk_state \<Rightarrow> int \<times> walk_state" where
  "abs_walk numstructs p [] s = (0, s)"
| "abs_walk numstructs p (x # xs) s =
     (if tstruct_count s + 1 > numstructs
      then (- 1, \<lparr>dmi_system_info = (if stype x = 2 then p else dmi_system_info s),
                  tstruct_count = tstruct_count s + 1,
                  reads = reads s \<union> struct_reads p x\<rparr>)
      else abs_walk numstructs (p + length (spec_encode_struct x)) xs
             \<lparr>dmi_system_info = (if stype x = 2 then p else dmi_system_info s),
              tstruct_count = tstruct_count s + 1,
              reads = reads s \<union> struct_reads p x\<rparr>)"

subsection \<open>Example platforms and memories\<close>

definition anchor_at :: "mem \<Rightarrow> nat \<Rightarrow> bool" where
  "anchor_at m dmi = (m dmi = 0x5F \<and> m (dmi + 1) = 0x53 \<and> m (dmi + 2) = 0x4D \<and> m (dmi + 3) = 0x5F)"

text \<open>
  A 64-bit platform on which every mapping fails; the signatures are the little-endian
  words "EL32" and "EL64".
\<close>

definition unmapped_platform :: platform where
  "unmapped_platform =
     \<lparr>x86_64 = True,
      EFI32_LOADER_SIGNATURE = 0x32334C45, EFI64_LOADER_SIGNATURE = 0x34364C45,
      map_region = (\<lambda>a n f. 0),
      sizeof_efi32_system_table_t = 72, sizeof_efi64_system_table_t = 120,
      sizeof_efi32_config_table_t = 20, sizeof_efi64_config_table_t = 24,
      efi32_system_table = (\<lambda>a. \<lparr>num_config_tables = 0, config_tables = 0\<rparr>),
      efi64_system_table = (\<lambda>a. \<lparr>num_config_tables = 0, config_tables = 0\<rparr>),
      efi32_config_table = (\<lambda>a i. \<lparr>guid = SMBIOS2_GUID, table = 0\<rparr>),
      efi64_config_table = (\<lambda>a i. \<lparr>guid = SMBIOS2_GUID, table = 0\<rparr>)\<rparr>"

text \<open>
  The same platform, except that the system table at 0x1000 can be mapped (to itself);
  it declares two configuration tables at 0x5000, which cannot be mapped.
\<close>

definition system_table_platform :: platform where
  "system_table_platform =
     unmapped_platform
       \<lparr>map_region := (\<lambda>a n f. if a = 0x1000 then 0x1000 else 0),
        efi32_system_table := (\<lambda>a. \<lparr>num_config_tables = 2, config_tables = 0x5000\<rparr>)\<rparr>"

text \<open>
  The platform on which every mapping fails, except that of the 64-bit composition of
  the system table address 0x1000, the mapping the EFI64 branch would attempt: the
  two-step mapping of the EFI32 branch still fails.
\<close>

definition high_mapping_platform :: platform where
  "high_mapping_platform =
     unmapped_platform
       \<lparr>map_region := (\<lambda>a n f. if a = 0x1000 \<and> n = 120 then 0x1000 else 0)\<rparr>"

definition no_efi_info :: efi_info where
  "no_efi_info = \<lparr>loader_signature = 0, sys_tab = 0, sys_tab_hi = 0\<rparr>"

definition efi32_info :: efi_info where
  "efi32_info = \<lparr>loader_signature = 0x32334C45, sys_tab = 0x1000, sys_tab_hi = 0\<rparr>"

text \<open>The anchor "_SM_" at 0xF0000, and at 0xF0000 + 0x1FE30 = 0x10FE30.\<close>

definition mem_anchor_low :: mem where
  "mem_anchor_low = mem_of_regions [(0xF0000, [0x5F, 0x53, 0x4D, 0x5F])]"

definition mem_anchor_high :: mem where
  "mem_anchor_high = mem_of_regions [(0x10FE30, [0x5F, 0x53, 0x4D, 0x5F])]"

text \<open>
  The checksum as the specification states it: the sum, modulo 256, of the
  \<^verbatim>\<open>length\<close> bytes that start at the entry point.
\<close>

definition spec_checksum :: "mem \<Rightarrow> nat \<Rightarrow> 8 word" where
  "spec_checksum m eps = sum_list (map m [eps ..< eps + unat (eps_length m eps)])"

text \<open>
  Entry points of 31 bytes for the legacy area. All declare the table at 0x2000.
  \<open>eps_bad_checksum\<close>: version 2.8, empty table, bytes summing to 0x3F.
  \<open>eps_version_1_3\<close>: version 1.3, empty table, bytes summing to 0.
  \<open>eps_one_struct\<close>: version 2.8, a table of 6 bytes declared to hold 0 structures,
  bytes summing to 0.
\<close>

definition eps_bad_checksum :: "8 word list" where
  "eps_bad_checksum =
     [0x5F, 0x53, 0x4D, 0x5F, 0x00, 0x1F, 2, 8, 0, 0, 0, 0, 0, 0, 0, 0,
      0x5F, 0x44, 0x4D, 0x49, 0x5F, 0, 0, 0, 0x00, 0x20, 0, 0, 0, 0, 0]"

definition eps_version_1_3 :: "8 word list" where
  "eps_version_1_3 =
     [0x5F, 0x53, 0x4D, 0x5F, 0xC7, 0x1F, 1, 3, 0, 0, 0, 0, 0, 0, 0, 0,
      0x5F, 0x44, 0x4D, 0x49, 0x5F, 0, 0, 0, 0x00, 0x20, 0, 0, 0, 0, 0]"


definition mem_bad_checksum :: mem where
  "mem_bad_checksum = mem_of_regions [(0xF0000, eps_bad_checksum)]"

definition mem_version_1_3 :: mem where
  "mem_version_1_3 = mem_of_regions [(0xF0000, eps_version_1_3)]"


definition state0 :: "nat \<Rightarrow> walk_state" where
  "state0 g0 = \<lparr>dmi_system_info = g0, tstruct_count = 0, reads = {}\<rparr>"

text \<open>
  Example tables at 0x2000. \<open>example_table\<close>: three structures of types 2, 1, 2,
  38 bytes. \<open>short_count_table\<close>: a type-1 structure followed by a type-2 structure,
  12 bytes.
\<close>

definition example_table :: "tstruct list" where
  "example_table =
     [\<lparr>stype = 2, handle = 0x1234, fixed_fields = [1, 2, 0, 0],
       strings = [str_Acme, str_Board_X]\<rparr>,
      \<lparr>stype = 1, handle = 1, fixed_fields = [], strings = []\<rparr>,
      \<lparr>stype = 2, handle = 2, fixed_fields = [], strings = [str_Acme]\<rparr>]"

definition example_table_mem :: mem where
  "example_table_mem = mem_of_regions [(0x2000, spec_encode_table example_table)]"

definition short_count_table :: "tstruct list" where
  "short_count_table =
     [\<lparr>stype = 1, handle = 0, fixed_fields = [], strings = []\<rparr>,
      \<lparr>stype = 2, handle = 1, fixed_fields = [], strings = []\<rparr>]"

definition short_count_mem :: mem where
  "short_count_mem = mem_of_regions [(0x2000, spec_encode_table short_count_table)]"

text \<open>
  \<open>cut_table L\<close>: a structure without strings and a structure with one string of
  \<open>L + 1\<close> bytes. The second fixed portion ends 10 bytes into the table.
\<close>

definition cut_table :: "nat \<Rightarrow> tstruct list" where
  "cut_table L =
     [\<lparr>stype = 1, handle = 0, fixed_fields = [], strings = []\<rparr>,
      \<lparr>stype = 1, handle = 1, fixed_fields = [], strings = [replicate (Suc L) 0x41]\<rparr>]"

definition cut_table_mem :: "nat \<Rightarrow> mem" where
  "cut_table_mem L = mem_of_regions [(0x2000, spec_encode_table (cut_table L))]"

section \<open>Proofs\<close>

subsection \<open>Memory\<close>

lemma loaded_append:
  "loaded m a (xs @ ys) = (loaded m a xs \<and> loaded m (a + length xs) ys)"
  by (induction xs arbitrary: a) auto

lemma loaded_nth: "loaded m a bs \<Longrightarrow> i < length bs \<Longrightarrow> m (a + i) = bs ! i"
proof (induction bs arbitrary: a i)
  case Nil
  then show ?case by simp
next
  case (Cons b bs)
  show ?case
  proof (cases i)
    case 0
    with Cons.prems show ?thesis by simp
  next
    case (Suc j)
    with Cons.prems have "m (Suc a + j) = bs ! j"
      by (intro Cons.IH) simp_all
    with Suc show ?thesis by simp
  qed
qed

lemma acme_mem_loaded:
  "loaded acme_mem (0x1000 + unat (hdr_length acme_mem 0x1000))
     (spec_string_area [str_Acme, str_Board_X])"
  by (simp add: acme_mem_def hdr_length_def spec_string_area_def str_Acme_def str_Board_X_def)

subsection \<open>The string decoder\<close>

lemma loop_hit: "m a \<noteq> 0 \<Longrightarrow> tstruct_string_loop m a 0 = Some a"
  by (subst tstruct_string_loop.simps) simp

lemma loop_skip_char:
  "m a \<noteq> 0 \<Longrightarrow> n \<noteq> 0 \<Longrightarrow> tstruct_string_loop m a n = tstruct_string_loop m (Suc a) n"
  by (subst tstruct_string_loop.simps) simp

lemma loop_cross_nul:
  "m a = 0 \<Longrightarrow> m (Suc a) \<noteq> 0 \<Longrightarrow>
   tstruct_string_loop m a n = tstruct_string_loop m (Suc a) (n - 1)"
  by (subst tstruct_string_loop.simps) simp

lemma loop_end: "m a = 0 \<Longrightarrow> m (Suc a) = 0 \<Longrightarrow> tstruct_string_loop m a n = Some 0"
  by (subst tstruct_string_loop.simps) simp

text \<open>
  C10. Whenever \<open>get_tstruct_string\<close> returns a pointer that is not null, the byte
  at that pointer is not NUL: a string it returns is never empty.
\<close>

theorem decoded_string_nonempty:
  assumes "get_tstruct_string m header n = Some p" and "p \<noteq> 0"
  shows "m p \<noteq> 0"
proof -
  have loop: "p \<noteq> 0 \<longrightarrow> m p \<noteq> 0" if ret: "tstruct_string_loop m a k = Some p" for a k
  proof (rule tstruct_string_loop.raw_induct
        [where P = "\<lambda>m a n p. p \<noteq> 0 \<longrightarrow> m p \<noteq> 0", OF _ ret])
    fix loop :: "mem \<Rightarrow> nat \<Rightarrow> 32 word \<Rightarrow> nat option" and m a n p
    assume IH: "\<And>m a n p. loop m a n = Some p \<Longrightarrow> p \<noteq> 0 \<longrightarrow> m p \<noteq> 0"
      and step: "(if (if m a = 0 then n - 1 else n) = 0 \<and> m a \<noteq> 0 then Some a
        else if m (a + 1) = 0 \<and> m a = 0 then Some 0
             else loop m (a + 1) (if m a = 0 then n - 1 else n)) = Some p"
    show "p \<noteq> 0 \<longrightarrow> m p \<noteq> 0"
    proof (cases "m a = 0")
      case True
      show ?thesis
      proof (cases "m (a + 1) = 0")
        case True
        with \<open>m a = 0\<close> step show ?thesis by simp
      next
        case False
        with \<open>m a = 0\<close> step have "loop m (a + 1) (n - 1) = Some p" by simp
        then show ?thesis by (rule IH)
      qed
    next
      case False
      show ?thesis
      proof (cases "n = 0")
        case True
        with False step show ?thesis by simp
      next
        case nz: False
        with False step have "loop m (a + 1) n = Some p" by simp
        then show ?thesis by (rule IH)
      qed
    qed
  qed
  show ?thesis
  proof (cases "sint n < 1")
    case True
    with assms show ?thesis by (simp add: get_tstruct_string_def)
  next
    case False
    with assms(1)
    have "tstruct_string_loop m (header + unat (hdr_length m header)) (n - 1) = Some p"
      by (simp add: get_tstruct_string_def)
    from loop [OF this] assms(2) show ?thesis by simp
  qed
qed

lemma acme_second_string: "get_tstruct_string acme_mem 0x1000 2 = Some 0x100D"
  using acme_mem_loaded
  by (simp add: get_tstruct_string_def spec_string_area_def str_Acme_def str_Board_X_def
      loop_hit loop_skip_char loop_cross_nul loop_end hdr_length_def acme_mem_def)

theorem decoded_string_nonempty_witness:
  "get_tstruct_string acme_mem 0x1000 2 = Some 0x100D \<and> (0x100D :: nat) \<noteq> 0
   \<and> acme_mem 0x100D \<noteq> 0"
proof -
  have nz: "(0x100D :: nat) \<noteq> 0" by simp
  from decoded_string_nonempty [OF acme_second_string nz] acme_second_string
  show ?thesis by simp
qed

lemma bios_scan_hit:
  "dmi < 0x1EFFF0 \<Longrightarrow> anchor_at m dmi \<Longrightarrow> bios_scan m dmi = dmi"
  by (subst bios_scan.simps) (simp add: anchor_at_def)

lemma bios_scan_miss:
  "dmi < 0x1EFFF0 \<Longrightarrow> \<not> anchor_at m dmi \<Longrightarrow> bios_scan m dmi = bios_scan m (dmi + 16)"
  by (subst bios_scan.simps) (auto simp add: anchor_at_def)

lemma bios_scan_end: "\<not> dmi < 0x1EFFF0 \<Longrightarrow> bios_scan m dmi = 0"
  by (subst bios_scan.simps) simp

lemma bios_scan_first:
  assumes "\<forall>j < k. \<not> anchor_at m (dmi + 16 * j)" and "anchor_at m (dmi + 16 * k)"
    and "dmi + 16 * k < 0x1EFFF0"
  shows "bios_scan m dmi = dmi + 16 * k"
  using assms
proof (induction k arbitrary: dmi)
  case 0
  then show ?case by (simp add: bios_scan_hit)
next
  case (Suc k)
  from Suc.prems(1) have miss: "\<not> anchor_at m dmi" by force
  from Suc.prems(3) have "dmi < 0x1EFFF0" by simp
  with miss have "bios_scan m dmi = bios_scan m (dmi + 16)" by (simp add: bios_scan_miss)
  also have "\<dots> = (dmi + 16) + 16 * k"
  proof (rule Suc.IH)
    show "\<forall>j<k. \<not> anchor_at m (dmi + 16 + 16 * j)"
    proof (intro allI impI)
      fix j assume "j < k"
      then have "Suc j < Suc k" by simp
      with Suc.prems(1) have "\<not> anchor_at m (dmi + 16 * Suc j)" by blast
      then show "\<not> anchor_at m (dmi + 16 + 16 * j)" by (simp add: add.assoc)
    qed
    from Suc.prems(2) show "anchor_at m (dmi + 16 + 16 * k)" by (simp add: add.assoc)
    from Suc.prems(3) show "dmi + 16 + 16 * k < 0x1EFFF0" by simp
  qed
  finally show ?case by simp
qed

lemma no_efi_path:
  "find_smbios_adr_path unmapped_platform no_efi_info m = Some (BIOS, bios_scan m 0xF0000)"
  by (simp add: find_smbios_adr_path_def unmapped_platform_def no_efi_info_def)

text \<open>
  C4. No EFI loader signature; the only "_SM_" in memory stands at 0x10FE30, above the
  BIOS area 0xF0000 .. 0xFFFFF. The scan runs up to 0xF0000 + 0xFFFF0 and returns it.
\<close>

theorem legacy_scan_beyond_bios_area:
  "find_smbios_adr unmapped_platform no_efi_info mem_anchor_high = Some 0x10FE30
   \<and> (0xFFFFF :: nat) < 0x10FE30"
proof -
  have zero: "mem_anchor_high a = 0" if "a < 0x10FE30" for a
    using that by (simp add: mem_anchor_high_def)
  have none: "\<forall>j < 8163. \<not> anchor_at mem_anchor_high (0xF0000 + 16 * j)"
  proof (intro allI impI)
    fix j :: nat assume "j < 8163"
    then have "0xF0000 + 16 * j < (0x10FE30 :: nat)" by simp
    then have "mem_anchor_high (0xF0000 + 16 * j) = 0" by (rule zero)
    then show "\<not> anchor_at mem_anchor_high (0xF0000 + 16 * j)"
      by (simp add: anchor_at_def)
  qed
  have hit: "anchor_at mem_anchor_high (0xF0000 + 16 * 8163)"
    by (simp add: anchor_at_def mem_anchor_high_def)
  have "bios_scan mem_anchor_high 0xF0000 = 0xF0000 + 16 * 8163"
    using none hit by (rule bios_scan_first) simp
  then show ?thesis
    by (simp add: find_smbios_adr_def no_efi_path)
qed

lemma bios_scan_anchor_low: "bios_scan mem_anchor_low 0xF0000 = 0xF0000"
  by (rule bios_scan_hit) (simp_all add: anchor_at_def mem_anchor_low_def)

text \<open>
  C3 as stated fails: with the EFI32 loader signature present and the mapping of the
  system table failing, the legacy scan runs and its result is returned.
\<close>

theorem efi_map_failure_falls_back_to_scan:
  "loader_signature efi32_info = EFI32_LOADER_SIGNATURE unmapped_platform
   \<and> find_smbios_adr_path unmapped_platform efi32_info mem_anchor_low = Some (BIOS, 0xF0000)
   \<and> find_smbios_adr unmapped_platform efi32_info mem_anchor_low = Some 0xF0000"
  by (simp add: find_smbios_adr_def find_smbios_adr_path_def unmapped_platform_def
      efi32_info_def efi32_system_table_addr_def efi64_system_table_addr_def
      bios_scan_anchor_low)

lemma checksum_loop_sum:
  "checksum_loop m dmi lim c = c + sum_list (map m [dmi ..< lim])"
proof (induction m dmi lim c rule: checksum_loop.induct)
  case (1 m dmi lim c)
  show ?case
  proof (cases "dmi < lim")
    case True
    then have "checksum_loop m dmi lim c = checksum_loop m (dmi + 1) lim (c + m dmi)"
      by (subst checksum_loop.simps) simp
    also have "\<dots> = (c + m dmi) + sum_list (map m [dmi + 1 ..< lim])"
      using True by (rule "1.IH")
    also have "\<dots> = c + sum_list (map m [dmi ..< lim])"
      using True by (simp add: upt_conv_Cons add.assoc)
    finally show ?thesis .
  next
    case False
    then show ?thesis by (subst checksum_loop.simps) simp
  qed
qed

lemma loaded_map_upt: "loaded m a bs \<Longrightarrow> map m [a ..< a + length bs] = bs"
proof (induction bs arbitrary: a)
  case Nil
  then show ?case by simp
next
  case (Cons b bs)
  from Cons.prems have rest: "loaded m (Suc a) bs" and head: "m a = b" by simp_all
  from rest have tail: "map m [Suc a ..< Suc a + length bs] = bs" by (rule Cons.IH)
  have "[a ..< a + length (b # bs)] = a # [Suc a ..< Suc a + length bs]"
    by (simp add: upt_conv_Cons del: upt_Suc)
  with head tail show ?case by (simp del: upt_Suc)
qed

lemma checksum_skipped: "lim \<le> dmi \<Longrightarrow> checksum_loop m dmi lim c = c"
  by (subst checksum_loop.simps) simp

lemma skip_found:
  "m dmi = 0 \<Longrightarrow> m (Suc dmi) = 0 \<Longrightarrow>
   skip_to_double_nul m dmi rs = Some (dmi, insert (Suc dmi) (insert dmi rs))"
  by (subst skip_to_double_nul.simps) simp

lemma skip_single_nul:
  "m dmi = 0 \<Longrightarrow> m (Suc dmi) \<noteq> 0 \<Longrightarrow>
   skip_to_double_nul m dmi rs
     = skip_to_double_nul m (Suc dmi) (insert (Suc dmi) (insert dmi rs))"
  by (subst skip_to_double_nul.simps) simp

lemma skip_char:
  "m dmi \<noteq> 0 \<Longrightarrow>
   skip_to_double_nul m dmi rs = skip_to_double_nul m (Suc dmi) (insert dmi rs)"
  by (subst skip_to_double_nul.simps) simp

lemma table_walk_done: "\<not> dmi < table_end \<Longrightarrow> table_walk m table_end ns dmi s = Some (0, s)"
  by (subst table_walk.simps) simp

lemma table_walk_step:
  assumes "dmi < table_end"
    and "skip_to_double_nul m (dmi + unat (hdr_length m dmi))
           (insert (Suc dmi) (insert dmi (reads s))) = Some (q, rs)"
  shows "table_walk m table_end ns dmi s =
     (if tstruct_count s + 1 > ns
      then Some (- 1,
             \<lparr>dmi_system_info = (if hdr_type m dmi = 2 then dmi else dmi_system_info s),
              tstruct_count = tstruct_count s + 1, reads = rs\<rparr>)
      else table_walk m table_end ns (q + 2)
             \<lparr>dmi_system_info = (if hdr_type m dmi = 2 then dmi else dmi_system_info s),
              tstruct_count = tstruct_count s + 1, reads = rs\<rparr>)"
  using assms by (subst table_walk.simps) simp


lemma legacy_entry_point:
  assumes "anchor_at m 0xF0000"
  shows "find_smbios_adr unmapped_platform no_efi_info m = Some 0xF0000"
  using assms by (simp add: find_smbios_adr_def no_efi_path bios_scan_hit)

lemma smbios_init_legacy:
  assumes "anchor_at m 0xF0000"
  shows "smbios_init unmapped_platform no_efi_info m dmi0 g0 =
     (if checksum_loop m dmi0 (0xF0000 + unat (eps_length m 0xF0000)) 0 \<noteq> 0
      then Some (- 1, state0 g0)
      else if eps_majorversion m 0xF0000 < 2 \<and> eps_minorversion m 0xF0000 < 3
      then Some (- 1, state0 g0)
      else table_walk m
             (unat (eps_tableaddress m 0xF0000) + unat (eps_tablelength m 0xF0000))
             (unat (eps_numstructs m 0xF0000))
             (unat (eps_tableaddress m 0xF0000)) (state0 g0))"
  by (simp add: smbios_init_def legacy_entry_point [OF assms] state0_def)

text \<open>
  C1. An entry point at 0xF0000 whose 31 bytes sum to 0x3F, and an uninitialised
  \<^verbatim>\<open>dmi\<close> that happens to hold 0xF001F: the checksum loop does not run once and
  \<open>smbios_init\<close> accepts the entry point (it returns 0).
\<close>

theorem checksum_not_computed_from_entry_point:
  "spec_checksum mem_bad_checksum 0xF0000 = 0x3F
   \<and> smbios_init unmapped_platform no_efi_info mem_bad_checksum 0xF001F 0
       = Some (0, \<lparr>dmi_system_info = 0, tstruct_count = 0, reads = {}\<rparr>)"
proof -
  have ld: "loaded mem_bad_checksum 0xF0000 eps_bad_checksum"
    by (simp add: mem_bad_checksum_def eps_bad_checksum_def)
  have len: "unat (eps_length mem_bad_checksum 0xF0000) = length eps_bad_checksum"
    by (simp add: eps_length_def mem_bad_checksum_def eps_bad_checksum_def)
  have "spec_checksum mem_bad_checksum 0xF0000 = sum_list eps_bad_checksum"
    unfolding spec_checksum_def len by (simp only: loaded_map_upt [OF ld])
  then have sum: "spec_checksum mem_bad_checksum 0xF0000 = 0x3F"
    by (simp add: eps_bad_checksum_def)
  have anchor: "anchor_at mem_bad_checksum 0xF0000"
    by (simp add: anchor_at_def mem_bad_checksum_def eps_bad_checksum_def)
  have fields: "eps_majorversion mem_bad_checksum 0xF0000 = 2"
    "unat (eps_tableaddress mem_bad_checksum 0xF0000) = 0x2000"
    "unat (eps_tablelength mem_bad_checksum 0xF0000) = 0"
    by (simp_all add: eps_majorversion_def eps_tableaddress_def eps_tablelength_def
        le16_def le32_def mem_bad_checksum_def eps_bad_checksum_def)
  have "smbios_init unmapped_platform no_efi_info mem_bad_checksum 0xF001F 0
          = Some (0, state0 0)"
    by (simp add: smbios_init_legacy [OF anchor] len checksum_skipped fields
        table_walk_done eps_bad_checksum_def)
  with sum show ?thesis by (simp add: state0_def)
qed

text \<open>
  C2. An entry point of version 1.3 with a correct checksum, \<^verbatim>\<open>dmi\<close> holding the
  entry point's address: \<open>smbios_init\<close> accepts it (it returns 0).
\<close>

theorem version_1_3_accepted:
  "spec_checksum mem_version_1_3 0xF0000 = 0
   \<and> eps_majorversion mem_version_1_3 0xF0000 = 1
   \<and> eps_minorversion mem_version_1_3 0xF0000 = 3
   \<and> smbios_init unmapped_platform no_efi_info mem_version_1_3 0xF0000 0
       = Some (0, \<lparr>dmi_system_info = 0, tstruct_count = 0, reads = {}\<rparr>)"
proof -
  have ld: "loaded mem_version_1_3 0xF0000 eps_version_1_3"
    by (simp add: mem_version_1_3_def eps_version_1_3_def)
  have len: "unat (eps_length mem_version_1_3 0xF0000) = length eps_version_1_3"
    by (simp add: eps_length_def mem_version_1_3_def eps_version_1_3_def)
  have bytes: "map mem_version_1_3 [0xF0000 ..< 0xF0000 + length eps_version_1_3]
                 = eps_version_1_3"
    by (rule loaded_map_upt [OF ld])
  have zero: "sum_list eps_version_1_3 = 0"
    by (simp add: eps_version_1_3_def)
  have sum: "spec_checksum mem_version_1_3 0xF0000 = 0"
    unfolding spec_checksum_def len by (simp only: bytes zero)
  have chk: "checksum_loop mem_version_1_3 0xF0000 (0xF0000 + length eps_version_1_3) 0 = 0"
    unfolding checksum_loop_sum by (simp only: bytes zero add_0_left)
  have anchor: "anchor_at mem_version_1_3 0xF0000"
    by (simp add: anchor_at_def mem_version_1_3_def eps_version_1_3_def)
  have fields: "eps_majorversion mem_version_1_3 0xF0000 = 1"
    "eps_minorversion mem_version_1_3 0xF0000 = 3"
    "unat (eps_tableaddress mem_version_1_3 0xF0000) = 0x2000"
    "unat (eps_tablelength mem_version_1_3 0xF0000) = 0"
    by (simp_all add: eps_majorversion_def eps_minorversion_def eps_tableaddress_def
        eps_tablelength_def le16_def le32_def mem_version_1_3_def eps_version_1_3_def)
  have "smbios_init unmapped_platform no_efi_info mem_version_1_3 0xF0000 0
          = Some (0, state0 0)"
    unfolding smbios_init_legacy [OF anchor] len chk fields
    by (simp add: table_walk_done)
  with sum fields show ?thesis by (simp add: state0_def)
qed







subsection \<open>Termination of the two terminator scans\<close>






subsection \<open>The walk over an encoded table\<close>

lemma skip_string:
  "loaded m a str \<Longrightarrow> 0 \<notin> set str \<Longrightarrow>
   skip_to_double_nul m a rs
     = skip_to_double_nul m (a + length str) (rs \<union> {a ..< a + length str})"
proof (induction str arbitrary: a rs)
  case Nil
  then show ?case by simp
next
  case (Cons b str)
  from Cons.prems have head: "m a \<noteq> 0" and rest: "loaded m (Suc a) str"
    and nonul: "0 \<notin> set str"
    by auto
  have "skip_to_double_nul m a rs = skip_to_double_nul m (Suc a) (insert a rs)"
    using head by (rule skip_char)
  also have "\<dots> = skip_to_double_nul m (Suc a + length str)
                      (insert a rs \<union> {Suc a ..< Suc a + length str})"
    using rest nonul by (rule Cons.IH)
  also have "insert a rs \<union> {Suc a ..< Suc a + length str}
               = rs \<union> {a ..< a + length (b # str)}"
    by auto
  finally show ?case by simp
qed

text \<open>The area of a non-empty list of strings, scanned from its first byte.\<close>

lemma skip_strings:
  assumes "strs \<noteq> []" and "wf_strings strs"
    and "loaded m a (concat (map (\<lambda>s. s @ [0]) strs) @ [0])"
  shows "skip_to_double_nul m a rs
     = Some (a + length (concat (map (\<lambda>s. s @ [0]) strs)) - 1,
             rs \<union> {a ..< a + length (concat (map (\<lambda>s. s @ [0]) strs)) + 1})"
  using assms
proof (induction strs arbitrary: a rs rule: list_nonempty_induct)
  case (single str)
  let ?n = "length str"
  from single.prems have nonul: "0 \<notin> set str" and ne: "str \<noteq> []"
    by (simp_all add: wf_strings_def)
  from single.prems(2) have ld: "loaded m a str"
    and z1: "m (a + ?n) = 0" and z2: "m (Suc (a + ?n)) = 0"
    by (simp_all add: loaded_append)
  have "skip_to_double_nul m a rs = skip_to_double_nul m (a + ?n) (rs \<union> {a ..< a + ?n})"
    using ld nonul by (rule skip_string)
  also have "\<dots> = Some (a + ?n, insert (Suc (a + ?n)) (insert (a + ?n) (rs \<union> {a ..< a + ?n})))"
    using z1 z2 by (rule skip_found)
  also have "insert (Suc (a + ?n)) (insert (a + ?n) (rs \<union> {a ..< a + ?n}))
               = rs \<union> {a ..< a + (?n + 1) + 1}"
    by auto
  finally show ?case by simp
next
  case (cons str strs)
  let ?n = "length str"
  let ?rest = "concat (map (\<lambda>s. s @ [0]) strs)"
  from cons.prems have nonul: "0 \<notin> set str" and wf: "wf_strings strs"
    by (simp_all add: wf_strings_def)
  from cons.hyps(1) obtain t ts where strs: "strs = t # ts" by (cases strs) auto
  with wf obtain c cs where t: "t = c # cs" and c: "c \<noteq> 0"
    by (cases t) (auto simp add: wf_strings_def)
  from cons.prems(2) have ld: "loaded m a str" and z1: "m (a + ?n) = 0"
    and tail: "loaded m (Suc (a + ?n)) (?rest @ [0])"
    by (simp_all add: loaded_append)
  from tail strs t c have nz: "m (Suc (a + ?n)) \<noteq> 0" by simp
  have "skip_to_double_nul m a rs = skip_to_double_nul m (a + ?n) (rs \<union> {a ..< a + ?n})"
    using ld nonul by (rule skip_string)
  also have "\<dots> = skip_to_double_nul m (Suc (a + ?n))
                      (insert (Suc (a + ?n)) (insert (a + ?n) (rs \<union> {a ..< a + ?n})))"
    using z1 nz by (rule skip_single_nul)
  also have "\<dots> = Some (Suc (a + ?n) + length ?rest - 1,
       insert (Suc (a + ?n)) (insert (a + ?n) (rs \<union> {a ..< a + ?n}))
         \<union> {Suc (a + ?n) ..< Suc (a + ?n) + length ?rest + 1})"
    using wf tail by (rule cons.IH)
  also have "insert (Suc (a + ?n)) (insert (a + ?n) (rs \<union> {a ..< a + ?n}))
         \<union> {Suc (a + ?n) ..< Suc (a + ?n) + length ?rest + 1}
       = rs \<union> {a ..< a + (?n + 1 + length ?rest) + 1}"
    by auto
  finally show ?case by (simp add: add.assoc)
qed

lemma string_area_length: "2 \<le> length (spec_string_area strs)"
  by (cases strs) (simp_all add: spec_string_area_def)

lemma skip_string_area:
  assumes "wf_strings strs" and "loaded m a (spec_string_area strs)"
  shows "skip_to_double_nul m a rs
     = Some (a + length (spec_string_area strs) - 2,
             rs \<union> {a ..< a + length (spec_string_area strs)})"
proof (cases "strs = []")
  case True
  with assms(2) have "m a = 0" "m (Suc a) = 0" by (simp_all add: spec_string_area_def)
  then have "skip_to_double_nul m a rs = Some (a, insert (Suc a) (insert a rs))"
    by (rule skip_found)
  moreover have "insert (Suc a) (insert a rs) = rs \<union> {a ..< a + 2}" by auto
  ultimately show ?thesis using True by (simp add: spec_string_area_def)
next
  case False
  with assms(2) have "loaded m a (concat (map (\<lambda>s. s @ [0]) strs) @ [0])"
    by (simp add: spec_string_area_def)
  from skip_strings [OF False assms(1) this, of rs] False
  show ?thesis by (simp add: spec_string_area_def)
qed

lemma fixed_part_length: "length (spec_fixed_part x) = 4 + length (fixed_fields x)"
  by (simp add: spec_fixed_part_def)

lemma encode_struct_length:
  "length (spec_encode_struct x)
     = 4 + length (fixed_fields x) + length (spec_string_area (strings x))"
  by (simp add: spec_encode_struct_def fixed_part_length)

lemma encoded_header:
  assumes "wf_tstruct x" and "loaded m p (spec_encode_struct x)"
  shows "hdr_type m p = stype x"
    and "unat (hdr_length m p) = length (spec_fixed_part x)"
    and "loaded m (p + length (spec_fixed_part x)) (spec_string_area (strings x))"
proof -
  from assms(2) have fixed: "loaded m p (spec_fixed_part x)"
    and area: "loaded m (p + length (spec_fixed_part x)) (spec_string_area (strings x))"
    by (simp_all add: spec_encode_struct_def loaded_append)
  from fixed show "hdr_type m p = stype x"
    by (simp add: spec_fixed_part_def hdr_type_def)
  from fixed have "m (p + 1) = of_nat (4 + length (fixed_fields x))"
    by (simp add: spec_fixed_part_def)
  then have enc: "word_of_nat (4 + length (fixed_fields x)) = hdr_length m p"
    by (simp only: hdr_length_def)
  from assms(1) have "4 + length (fixed_fields x) < 2 ^ LENGTH(8)"
    by (simp add: wf_tstruct_def)
  with enc have "unat (hdr_length m p) = 4 + length (fixed_fields x)"
    by (rule of_nat_inverse)
  then show "unat (hdr_length m p) = length (spec_fixed_part x)"
    by (simp only: fixed_part_length)
  from area show "loaded m (p + length (spec_fixed_part x)) (spec_string_area (strings x))" .
qed

lemma table_walk_struct:
  assumes wf: "wf_tstruct x" and ld: "loaded m p (spec_encode_struct x)"
    and inside: "p < table_end"
  shows "table_walk m table_end ns p s =
     (if tstruct_count s + 1 > ns
      then Some (- 1, \<lparr>dmi_system_info = (if stype x = 2 then p else dmi_system_info s),
                        tstruct_count = tstruct_count s + 1,
                        reads = reads s \<union> struct_reads p x\<rparr>)
      else table_walk m table_end ns (p + length (spec_encode_struct x))
             \<lparr>dmi_system_info = (if stype x = 2 then p else dmi_system_info s),
              tstruct_count = tstruct_count s + 1,
              reads = reads s \<union> struct_reads p x\<rparr>)"
proof -
  note hdr = encoded_header [OF wf ld]
  let ?a = "p + length (spec_fixed_part x)"
  let ?n = "length (spec_string_area (strings x))"
  from wf have "wf_strings (strings x)" by (simp add: wf_tstruct_def)
  from skip_string_area [OF this hdr(3), of "insert (Suc p) (insert p (reads s))"]
  have sk: "skip_to_double_nul m (p + unat (hdr_length m p))
              (insert (Suc p) (insert p (reads s)))
            = Some (?a + ?n - 2, insert (Suc p) (insert p (reads s)) \<union> {?a ..< ?a + ?n})"
    by (simp only: hdr(2))
  have next_struct: "?a + ?n - 2 + 2 = p + length (spec_encode_struct x)"
    using string_area_length [of "strings x"] by (simp add: spec_encode_struct_def)
  have rd: "insert (Suc p) (insert p (reads s)) \<union> {?a ..< ?a + ?n}
              = reads s \<union> struct_reads p x"
    by (auto simp add: struct_reads_def spec_encode_struct_def)
  show ?thesis
    unfolding table_walk_step [OF inside sk] next_struct rd hdr(1) by (rule refl)
qed

lemma encode_table_Cons:
  "spec_encode_table (x # xs) = spec_encode_struct x @ spec_encode_table xs"
  by (simp add: spec_encode_table_def)

lemma encode_struct_nonempty: "0 < length (spec_encode_struct x)"
  by (simp add: encode_struct_length)

text \<open>
  On a table of well-formed structures whose encoding fills the declared length,
  \<open>table_walk\<close> returns, and returns what the walk over the abstract table gives.
\<close>

lemma table_walk_encoded:
  assumes "\<forall>x \<in> set ss. wf_tstruct x" and "loaded m p (spec_encode_table ss)"
  shows "table_walk m (p + length (spec_encode_table ss)) ns p s
           = Some (abs_walk ns p ss s)"
  using assms
proof (induction ss arbitrary: p s)
  case Nil
  then show ?case by (simp add: spec_encode_table_def table_walk_done)
next
  case (Cons x xs)
  let ?e = "length (spec_encode_struct x)"
  let ?s1 = "\<lparr>dmi_system_info = (if stype x = 2 then p else dmi_system_info s),
              tstruct_count = tstruct_count s + 1,
              reads = reads s \<union> struct_reads p x\<rparr>"
  from Cons.prems have wf: "wf_tstruct x" and wfs: "\<forall>x \<in> set xs. wf_tstruct x"
    and ld: "loaded m p (spec_encode_struct x)"
    and lds: "loaded m (p + ?e) (spec_encode_table xs)"
    by (simp_all add: encode_table_Cons loaded_append)
  have ends: "p + length (spec_encode_table (x # xs)) = (p + ?e) + length (spec_encode_table xs)"
    by (simp add: encode_table_Cons)
  have inside: "p < (p + ?e) + length (spec_encode_table xs)"
    using encode_struct_nonempty [of x] by simp
  note step = table_walk_struct [OF wf ld inside, of ns s]
  show ?case
  proof (cases "tstruct_count s + 1 > ns")
    case True
    with step have "table_walk m ((p + ?e) + length (spec_encode_table xs)) ns p s
                      = Some (- 1, ?s1)"
      by simp
    with True show ?thesis unfolding ends by simp
  next
    case False
    with step have "table_walk m ((p + ?e) + length (spec_encode_table xs)) ns p s
            = table_walk m ((p + ?e) + length (spec_encode_table xs)) ns (p + ?e) ?s1"
      by simp
    also have "\<dots> = Some (abs_walk ns (p + ?e) xs ?s1)"
      using wfs lds by (rule Cons.IH)
    finally show ?thesis using False unfolding ends by simp
  qed
qed

subsection \<open>What the walk over the abstract table computes\<close>

lemma abs_walk_no_type2:
  "\<forall>x \<in> set xs. stype x \<noteq> 2 \<Longrightarrow>
   dmi_system_info (snd (abs_walk ns p xs s)) = dmi_system_info s"
  by (induction xs arbitrary: p s) simp_all

lemma struct_addr_0: "struct_addr p ss 0 = p"
  by (simp add: struct_addr_def spec_encode_table_def)

lemma struct_addr_Suc:
  "struct_addr p (x # xs) (Suc k) = struct_addr (p + length (spec_encode_struct x)) xs k"
  by (simp add: struct_addr_def encode_table_Cons)

lemma abs_walk_last:
  assumes "k < length ss" and "stype (ss ! k) = 2"
    and "\<forall>j. k < j \<and> j < length ss \<longrightarrow> stype (ss ! j) \<noteq> 2"
    and "tstruct_count s + k \<le> ns"
  shows "dmi_system_info (snd (abs_walk ns p ss s)) = struct_addr p ss k"
  using assms
proof (induction ss arbitrary: p s k)
  case Nil
  then show ?case by simp
next
  case (Cons x xs)
  let ?s1 = "\<lparr>dmi_system_info = (if stype x = 2 then p else dmi_system_info s),
              tstruct_count = tstruct_count s + 1,
              reads = reads s \<union> struct_reads p x\<rparr>"
  show ?case
  proof (cases k)
    case 0
    with Cons.prems(2) have x2: "stype x = 2" by simp
    have later: "\<forall>y \<in> set xs. stype y \<noteq> 2"
    proof
      fix y assume "y \<in> set xs"
      then obtain i where i: "i < length xs" and y: "y = xs ! i"
        by (auto simp add: in_set_conv_nth)
      from i 0 have "k < Suc i \<and> Suc i < length (x # xs)" by simp
      with Cons.prems(3) have "stype ((x # xs) ! Suc i) \<noteq> 2" by blast
      with y show "stype y \<noteq> 2" by simp
    qed
    show ?thesis
    proof (cases "tstruct_count s + 1 > ns")
      case True
      with x2 0 show ?thesis by (simp add: struct_addr_0)
    next
      case False
      with x2 0 abs_walk_no_type2 [OF later, of ns "p + length (spec_encode_struct x)" ?s1]
      show ?thesis by (simp add: struct_addr_0)
    qed
  next
    case (Suc k')
    with Cons.prems(4) have noguard: "\<not> tstruct_count s + 1 > ns" by simp
    have "dmi_system_info (snd (abs_walk ns (p + length (spec_encode_struct x)) xs ?s1))
            = struct_addr (p + length (spec_encode_struct x)) xs k'"
    proof (rule Cons.IH)
      from Cons.prems(1) Suc show "k' < length xs" by simp
      from Cons.prems(2) Suc show "stype (xs ! k') = 2" by simp
      show "\<forall>j. k' < j \<and> j < length xs \<longrightarrow> stype (xs ! j) \<noteq> 2"
      proof (intro allI impI)
        fix j assume "k' < j \<and> j < length xs"
        with Suc have "k < Suc j \<and> Suc j < length (x # xs)" by simp
        with Cons.prems(3) have "stype ((x # xs) ! Suc j) \<noteq> 2" by blast
        then show "stype (xs ! j) \<noteq> 2" by simp
      qed
      from Cons.prems(4) Suc show "tstruct_count ?s1 + k' \<le> ns" by simp
    qed
    with noguard Suc show ?thesis by (simp add: struct_addr_Suc)
  qed
qed

lemma abs_walk_complete:
  "tstruct_count s + length ss \<le> ns \<Longrightarrow>
   fst (abs_walk ns p ss s) = 0
   \<and> tstruct_count (snd (abs_walk ns p ss s)) = tstruct_count s + length ss"
  by (induction ss arbitrary: p s) simp_all

lemma abs_walk_guard:
  "tstruct_count s \<le> ns \<Longrightarrow> ns < tstruct_count s + length ss \<Longrightarrow>
   fst (abs_walk ns p ss s) = - 1 \<and> tstruct_count (snd (abs_walk ns p ss s)) = ns + 1"
proof (induction ss arbitrary: p s)
  case Nil
  then show ?case by simp
next
  case (Cons x xs)
  show ?case
  proof (cases "tstruct_count s + 1 > ns")
    case True
    with Cons.prems show ?thesis by simp
  next
    case False
    with Cons.prems Cons.IH show ?thesis by simp
  qed
qed

lemma struct_reads_inside:
  "struct_reads p x \<subseteq> {p ..< p + length (spec_encode_struct x)}"
  using string_area_length [of "strings x"]
  by (auto simp add: struct_reads_def spec_encode_struct_def fixed_part_length)

lemma abs_walk_reads:
  "reads (snd (abs_walk ns p ss s)) \<subseteq> reads s \<union> {p ..< p + length (spec_encode_table ss)}"
proof (induction ss arbitrary: p s)
  case Nil
  then show ?case by simp
next
  case (Cons x xs)
  let ?e = "length (spec_encode_struct x)"
  let ?s1 = "\<lparr>dmi_system_info = (if stype x = 2 then p else dmi_system_info s),
              tstruct_count = tstruct_count s + 1,
              reads = reads s \<union> struct_reads p x\<rparr>"
  let ?n = "length (spec_encode_table xs)"
  have inside: "struct_reads p x \<subseteq> {p ..< p + ?e + ?n}"
    using struct_reads_inside [of p x] by auto
  show ?case
  proof (cases "tstruct_count s + 1 > ns")
    case True
    with inside show ?thesis by (auto simp add: encode_table_Cons)
  next
    case False
    let ?R = "reads (snd (abs_walk ns (p + ?e) xs ?s1))"
    have "?R \<subseteq> reads ?s1 \<union> {p + ?e ..< p + ?e + ?n}"
      by (rule Cons.IH)
    then have "?R \<subseteq> (reads s \<union> struct_reads p x) \<union> {p + ?e ..< p + ?e + ?n}"
      by simp
    also have "\<dots> \<subseteq> reads s \<union> {p ..< p + ?e + ?n}"
      using inside by auto
    finally have "?R \<subseteq> reads s \<union> {p ..< p + ?e + ?n}" .
    with False show ?thesis by (simp add: encode_table_Cons add.assoc)
  qed
qed

lemma loaded_by_nth: "(\<And>i. i < length bs \<Longrightarrow> m (a + i) = bs ! i) \<Longrightarrow> loaded m a bs"
proof (induction bs arbitrary: a)
  case Nil
  then show ?case by simp
next
  case (Cons b bs)
  from Cons.prems [of 0] have "m a = b" by simp
  moreover have "loaded m (Suc a) bs"
  proof (rule Cons.IH)
    fix i assume "i < length bs"
    with Cons.prems [of "Suc i"] show "m (Suc a + i) = bs ! i" by simp
  qed
  ultimately show ?case by simp
qed

lemma loaded_first_region: "loaded (mem_of_regions ((base, bs) # rs)) base bs"
  by (rule loaded_by_nth) simp

lemma example_table_facts:
  "\<forall>x \<in> set example_table. wf_tstruct x"
  "length (spec_encode_table example_table) = 38"
  "struct_addr 0x2000 example_table 2 = 0x201C"
  by (simp_all add: example_table_def wf_tstruct_def wf_strings_def str_Acme_def
      str_Board_X_def spec_encode_table_def spec_encode_struct_def spec_fixed_part_def
      spec_string_area_def struct_addr_def)

lemma short_count_table_facts:
  "\<forall>x \<in> set short_count_table. wf_tstruct x"
  "length (spec_encode_table short_count_table) = 12"
  "struct_addr 0x2000 short_count_table 1 = 0x2006"
  by (simp_all add: short_count_table_def wf_tstruct_def wf_strings_def
      spec_encode_table_def spec_encode_struct_def spec_fixed_part_def
      spec_string_area_def struct_addr_def)

text \<open>
  C5 as stated fails: the table holds exactly one structure of type 2, its second, at
  0x2006, and the entry point declares no structure. The guard ends the walk after the
  first structure and the pointer is left at 0.
\<close>

theorem guard_hides_system_info:
  "loaded short_count_mem 0x2000 (spec_encode_table short_count_table)
   \<and> map stype short_count_table = [1, 2]
   \<and> struct_addr 0x2000 short_count_table 1 = 0x2006
   \<and> (\<exists>s'. table_walk short_count_mem
               (0x2000 + length (spec_encode_table short_count_table)) 0 0x2000
               \<lparr>dmi_system_info = 0, tstruct_count = 0, reads = {}\<rparr> = Some (- 1, s')
          \<and> dmi_system_info s' = 0)"
proof -
  have ld: "loaded short_count_mem 0x2000 (spec_encode_table short_count_table)"
    unfolding short_count_mem_def by (rule loaded_first_region)
  from table_walk_encoded [OF short_count_table_facts(1) ld, of 0
      "\<lparr>dmi_system_info = 0, tstruct_count = 0, reads = {}\<rparr>"]
  have "\<exists>s'. table_walk short_count_mem
               (0x2000 + length (spec_encode_table short_count_table)) 0 0x2000
               \<lparr>dmi_system_info = 0, tstruct_count = 0, reads = {}\<rparr> = Some (- 1, s')
          \<and> dmi_system_info s' = 0"
    by (simp add: short_count_table_def)
  with ld short_count_table_facts(3) show ?thesis
    by (simp add: short_count_table_def)
qed

lemma loop_skip_string:
  "loaded m a str \<Longrightarrow> 0 \<notin> set str \<Longrightarrow> c \<noteq> 0 \<Longrightarrow>
   tstruct_string_loop m a c = tstruct_string_loop m (a + length str) c"
proof (induction str arbitrary: a)
  case Nil
  then show ?case by simp
next
  case (Cons b str)
  from Cons.prems have head: "m a \<noteq> 0" and rest: "loaded m (Suc a) str"
    and nonul: "0 \<notin> set str"
    by auto
  have "tstruct_string_loop m a c = tstruct_string_loop m (Suc a) c"
    using head Cons.prems(3) by (rule loop_skip_char)
  also have "\<dots> = tstruct_string_loop m (Suc a + length str) c"
    using rest nonul Cons.prems(3) by (rule Cons.IH)
  finally show ?case by simp
qed

lemma unat_pred: "c \<noteq> 0 \<Longrightarrow> unat (c - 1) = unat c - 1" for c :: "32 word"
  by (simp add: unat_minus_one)

text \<open>
  The loop on the area of a non-empty list of strings, entered at the first byte
  with counter \<open>c\<close>: it returns the address of string number \<open>c\<close> (from 0), or
  null when the area holds no such string.
\<close>

lemma loop_strings:
  assumes "strs \<noteq> []" and "wf_strings strs"
    and "loaded m a (concat (map (\<lambda>s. s @ [0]) strs) @ [0])"
  shows "tstruct_string_loop m a c
     = Some (if unat c < length strs then string_addr a strs (unat c) else 0)"
  using assms
proof (induction strs arbitrary: a c rule: list_nonempty_induct)
  case (single str)
  let ?n = "length str"
  from single.prems have nonul: "0 \<notin> set str" and ne: "str \<noteq> []"
    by (simp_all add: wf_strings_def)
  from single.prems(2) have ld: "loaded m a str"
    and z1: "m (a + ?n) = 0" and z2: "m (Suc (a + ?n)) = 0"
    by (simp_all add: loaded_append)
  from ne ld nonul have first: "m a \<noteq> 0" by (cases str) auto
  show ?case
  proof (cases "c = 0")
    case True
    with first show ?thesis by (simp add: loop_hit string_addr_def)
  next
    case False
    then have pos: "\<not> unat c < 1" by (simp add: unat_eq_0)
    have "tstruct_string_loop m a c = tstruct_string_loop m (a + ?n) c"
      using ld nonul False by (rule loop_skip_string)
    also have "\<dots> = Some 0" using z1 z2 by (rule loop_end)
    finally show ?thesis using pos by simp
  qed
next
  case (cons str strs)
  let ?n = "length str"
  let ?rest = "concat (map (\<lambda>s. s @ [0]) strs)"
  from cons.prems have nonul: "0 \<notin> set str" and ne: "str \<noteq> []"
    and wf: "wf_strings strs"
    by (simp_all add: wf_strings_def)
  from cons.hyps(1) obtain t ts where strs: "strs = t # ts" by (cases strs) auto
  with wf obtain b bs where t: "t = b # bs" and b: "b \<noteq> 0"
    by (cases t) (auto simp add: wf_strings_def)
  from cons.prems(2) have ld: "loaded m a str" and z1: "m (a + ?n) = 0"
    and tail: "loaded m (Suc (a + ?n)) (?rest @ [0])"
    by (simp_all add: loaded_append)
  from tail strs t b have nz: "m (Suc (a + ?n)) \<noteq> 0" by simp
  from ne ld nonul have first: "m a \<noteq> 0" by (cases str) auto
  show ?case
  proof (cases "c = 0")
    case True
    with first show ?thesis by (simp add: loop_hit string_addr_def)
  next
    case False
    then have pos: "0 < unat c" by (simp add: unat_gt_0)
    have "tstruct_string_loop m a c = tstruct_string_loop m (a + ?n) c"
      using ld nonul False by (rule loop_skip_string)
    also have "\<dots> = tstruct_string_loop m (Suc (a + ?n)) (c - 1)"
      using z1 nz by (rule loop_cross_nul)
    also have "\<dots> = Some (if unat (c - 1) < length strs
                             then string_addr (Suc (a + ?n)) strs (unat (c - 1)) else 0)"
      using wf tail by (rule cons.IH)
    finally have step: "tstruct_string_loop m a c
        = Some (if unat c - 1 < length strs
                then string_addr (Suc (a + ?n)) strs (unat c - 1) else 0)"
      by (simp only: unat_pred [OF False])
    from pos obtain k where k: "unat c = Suc k" by (cases "unat c") auto
    have "string_addr a (str # strs) (Suc k) = string_addr (Suc (a + ?n)) strs k"
      by (simp add: string_addr_def)
    with step k show ?thesis by simp
  qed
qed

lemma string_addr_loaded:
  assumes "loaded m a (concat (map (\<lambda>s. s @ [0]) strs) @ rest)" and "i < length strs"
  shows "loaded m (string_addr a strs i) (strs ! i @ [0])"
  using assms
proof (induction strs arbitrary: a i)
  case Nil
  then show ?case by simp
next
  case (Cons str strs)
  show ?case
  proof (cases i)
    case 0
    with Cons.prems(1) show ?thesis by (simp add: string_addr_def loaded_append)
  next
    case (Suc j)
    from Cons.prems(1)
    have "loaded m (a + length (str @ [0])) (concat (map (\<lambda>s. s @ [0]) strs) @ rest)"
      by (simp add: loaded_append)
    moreover from Cons.prems(2) Suc have "j < length strs" by simp
    ultimately have "loaded m (string_addr (a + length (str @ [0])) strs j) (strs ! j @ [0])"
      by (rule Cons.IH)
    moreover have "string_addr a (str # strs) (Suc j)
                     = string_addr (a + length (str @ [0])) strs j"
      by (simp add: string_addr_def)
    ultimately show ?thesis using Suc by simp
  qed
qed

lemma sint_of_nat_32: "k < 2 ^ 31 \<Longrightarrow> sint (of_nat k :: 32 word) = int k"
  by (simp add: sint_uint signed_take_bit_int_eq_self take_bit_nat_eq_self unsigned_of_nat)

lemma unat_of_nat_32: "k < 2 ^ 31 \<Longrightarrow> unat (of_nat k :: 32 word) = k"
  by (simp add: unat_of_nat)

text \<open>
  C8. String decoding inverts the string-area encoding. For a structure whose string
  area is the encoding of the well-formed strings \<open>strs\<close>, placed right after the
  fixed portion: index \<open>i + 1\<close> gives the address of string number \<open>i\<close> (from 0),
  at which that string and its NUL stand; every index past the number of strings
  gives null; every index below 1 gives null. For ["Acme", "Board-X"], encoded as
  "Acme\\0Board-X\\0\\0", these are the address of "Acme" for 1, of "Board-X" for 2,
  and null for 0 and 3.
\<close>

theorem string_decoding_inverts_encoding:
  assumes "wf_strings strs"
    and "loaded m (header + unat (hdr_length m header)) (spec_string_area strs)"
  shows "(\<forall>i. i < length strs \<and> i + 1 < 2 ^ 31 \<longrightarrow>
            get_tstruct_string m header (of_nat (i + 1))
              = Some (string_addr (header + unat (hdr_length m header)) strs i)
            \<and> loaded m (string_addr (header + unat (hdr_length m header)) strs i)
                 (strs ! i @ [0]))
       \<and> (\<forall>k. length strs < k \<and> k < 2 ^ 31 \<longrightarrow>
            get_tstruct_string m header (of_nat k) = Some 0)
       \<and> (\<forall>n. sint n < 1 \<longrightarrow> get_tstruct_string m header n = Some 0)
       \<and> spec_string_area [str_Acme, str_Board_X]
           = str_Acme @ [0] @ str_Board_X @ [0, 0]"
proof -
  let ?a = "header + unat (hdr_length m header)"
  have loop: "tstruct_string_loop m ?a c
                = Some (if unat c < length strs then string_addr ?a strs (unat c) else 0)" for c
  proof (cases "strs = []")
    case True
    with assms(2) have "m ?a = 0" "m (Suc ?a) = 0" by (simp_all add: spec_string_area_def)
    then have "tstruct_string_loop m ?a c = Some 0" by (rule loop_end)
    with True show ?thesis by simp
  next
    case False
    with assms(2) have "loaded m ?a (concat (map (\<lambda>s. s @ [0]) strs) @ [0])"
      by (simp add: spec_string_area_def)
    with False assms(1) show ?thesis by (rule loop_strings)
  qed
  have decode: "get_tstruct_string m header (of_nat k)
                  = Some (if k - 1 < length strs then string_addr ?a strs (k - 1) else 0)"
    if k: "1 \<le> k" "k < 2 ^ 31" for k
  proof -
    from k have "of_nat k - 1 = (of_nat (k - 1) :: 32 word)" by simp
    moreover from k have "unat (of_nat (k - 1) :: 32 word) = k - 1"
      by (intro unat_of_nat_32) simp
    moreover from k have "\<not> sint (of_nat k :: 32 word) < 1"
      by (simp add: sint_of_nat_32)
    ultimately show ?thesis by (simp add: get_tstruct_string_def loop)
  qed
  have found: "get_tstruct_string m header (of_nat (i + 1)) = Some (string_addr ?a strs i)
        \<and> loaded m (string_addr ?a strs i) (strs ! i @ [0])"
    if i: "i < length strs \<and> i + 1 < 2 ^ 31" for i
  proof -
    from i have ne: "strs \<noteq> []" by auto
    with assms(2) have "loaded m ?a (concat (map (\<lambda>s. s @ [0]) strs) @ [0])"
      by (simp add: spec_string_area_def)
    with i have "loaded m (string_addr ?a strs i) (strs ! i @ [0])"
      by (intro string_addr_loaded) simp_all
    moreover from i decode [of "i + 1"]
    have "get_tstruct_string m header (of_nat (i + 1)) = Some (string_addr ?a strs i)"
      by simp
    ultimately show ?thesis by simp
  qed
  have past: "get_tstruct_string m header (of_nat k) = Some 0"
    if k: "length strs < k \<and> k < 2 ^ 31" for k
  proof -
    from k have "1 \<le> k" "\<not> k - 1 < length strs" by arith+
    with k decode [of k] show ?thesis by simp
  qed
  have null: "get_tstruct_string m header n = Some 0" if "sint n < 1" for n
    using that by (simp add: get_tstruct_string_def)
  have area: "spec_string_area [str_Acme, str_Board_X]
           = str_Acme @ [0] @ str_Board_X @ [0, 0]"
    by (simp add: spec_string_area_def)
  from found past null area show ?thesis by blast
qed

theorem string_decoding_inverts_encoding_witness:
  "wf_strings [str_Acme, str_Board_X]
   \<and> loaded acme_mem (0x1000 + unat (hdr_length acme_mem 0x1000))
       (spec_string_area [str_Acme, str_Board_X])
   \<and> get_tstruct_string acme_mem 0x1000 1 = Some 0x1008
   \<and> loaded acme_mem 0x1008 (str_Acme @ [0])
   \<and> get_tstruct_string acme_mem 0x1000 2 = Some 0x100D
   \<and> loaded acme_mem 0x100D (str_Board_X @ [0])
   \<and> get_tstruct_string acme_mem 0x1000 3 = Some 0
   \<and> get_tstruct_string acme_mem 0x1000 0 = Some 0
   \<and> get_tstruct_string acme_mem 0x1000 (- 1) = Some 0"
proof -
  have wf: "wf_strings [str_Acme, str_Board_X]"
    by (simp add: wf_strings_def str_Acme_def str_Board_X_def)
  have len: "unat (hdr_length acme_mem 0x1000) = 8"
    by (simp add: acme_mem_def hdr_length_def)
  note decoded = string_decoding_inverts_encoding [OF wf acme_mem_loaded]
  let ?a = "0x1000 + unat (hdr_length acme_mem 0x1000)"
  let ?strs = "[str_Acme, str_Board_X]"
  from decoded have found: "get_tstruct_string acme_mem 0x1000 (of_nat (i + 1))
        = Some (string_addr ?a ?strs i)
      \<and> loaded acme_mem (string_addr ?a ?strs i) (?strs ! i @ [0])"
    if "i < length ?strs \<and> i + 1 < 2 ^ 31" for i
    using that by blast
  from decoded have past: "get_tstruct_string acme_mem 0x1000 (of_nat k) = Some 0"
    if "length ?strs < k \<and> k < 2 ^ 31" for k
    using that by blast
  from decoded have null: "get_tstruct_string acme_mem 0x1000 n = Some 0"
    if "sint n < 1" for n
    using that by blast
  have first: "get_tstruct_string acme_mem 0x1000 1 = Some 0x1008
      \<and> loaded acme_mem 0x1008 (str_Acme @ [0])"
    using found [of 0] by (simp add: len string_addr_def)
  have second: "get_tstruct_string acme_mem 0x1000 2 = Some 0x100D
      \<and> loaded acme_mem 0x100D (str_Board_X @ [0])"
    using found [of 1] by (simp add: len string_addr_def str_Acme_def)
  have third: "get_tstruct_string acme_mem 0x1000 3 = Some 0"
    using past [of 3] by simp
  have low: "get_tstruct_string acme_mem 0x1000 0 = Some 0"
    "get_tstruct_string acme_mem 0x1000 (- 1) = Some 0"
    by (simp_all add: null)
  from first second third low wf acme_mem_loaded show ?thesis by simp
qed

text \<open>
  C3, amended. When a recognised loader signature is present and the EFI system table
  of its branch is mapped, the address comes from the configuration-table lookup of
  that branch (it is 0 when the configuration tables cannot be mapped) and the legacy
  scan is not executed. In every other case the legacy scan is executed and its
  result returned: in particular when the EFI32 signature is present and its system
  table cannot be mapped, and when (on a 64-bit build) the EFI64 signature is present
  and its system table cannot be mapped, whatever the mapping the other branch would
  have attempted gives.
\<close>

theorem efi_precedes_legacy_scan:
  "(loader_signature ei = EFI32_LOADER_SIGNATURE pf \<and> efi32_system_table_addr pf ei \<noteq> 0 \<longrightarrow>
      find_smbios_adr_path pf ei m =
        map_option (Pair EFI32)
          (find_smbios_in_efi32_system_table pf (efi32_system_table_addr pf ei)))
   \<and> (\<not> (loader_signature ei = EFI32_LOADER_SIGNATURE pf \<and> efi32_system_table_addr pf ei \<noteq> 0)
        \<and> x86_64 pf \<and> loader_signature ei = EFI64_LOADER_SIGNATURE pf
        \<and> efi64_system_table_addr pf ei \<noteq> 0 \<longrightarrow>
      find_smbios_adr_path pf ei m =
        map_option (Pair EFI64)
          (find_smbios_in_efi64_system_table pf (efi64_system_table_addr pf ei)))
   \<and> (map_region pf (config_tables (efi32_system_table pf sta))
          ((num_config_tables (efi32_system_table pf sta) * sizeof_efi32_config_table_t pf)
             mod size_t_max pf) True = 0 \<longrightarrow>
      find_smbios_in_efi32_system_table pf sta = Some 0)
   \<and> (map_region pf (config_tables (efi64_system_table pf sta))
          ((num_config_tables (efi64_system_table pf sta) * sizeof_efi64_config_table_t pf)
             mod size_t_max pf) True = 0 \<longrightarrow>
      find_smbios_in_efi64_system_table pf sta = Some 0)
   \<and> (\<not> (loader_signature ei = EFI32_LOADER_SIGNATURE pf \<and> efi32_system_table_addr pf ei \<noteq> 0)
        \<and> \<not> (x86_64 pf \<and> loader_signature ei = EFI64_LOADER_SIGNATURE pf
                \<and> efi64_system_table_addr pf ei \<noteq> 0) \<longrightarrow>
      find_smbios_adr_path pf ei m = Some (BIOS, bios_scan m 0xF0000))
   \<and> (loader_signature ei = EFI32_LOADER_SIGNATURE pf
        \<and> loader_signature ei \<noteq> EFI64_LOADER_SIGNATURE pf
        \<and> efi32_system_table_addr pf ei = 0 \<longrightarrow>
      find_smbios_adr_path pf ei m = Some (BIOS, bios_scan m 0xF0000))
   \<and> (loader_signature ei = EFI32_LOADER_SIGNATURE pf \<and> \<not> x86_64 pf
        \<and> efi32_system_table_addr pf ei = 0 \<longrightarrow>
      find_smbios_adr_path pf ei m = Some (BIOS, bios_scan m 0xF0000))
   \<and> (x86_64 pf \<and> loader_signature ei = EFI64_LOADER_SIGNATURE pf
        \<and> loader_signature ei \<noteq> EFI32_LOADER_SIGNATURE pf
        \<and> efi64_system_table_addr pf ei = 0 \<longrightarrow>
      find_smbios_adr_path pf ei m = Some (BIOS, bios_scan m 0xF0000))"
proof -
  let ?t32 = "loader_signature ei = EFI32_LOADER_SIGNATURE pf \<and> efi32_system_table_addr pf ei \<noteq> 0"
  let ?t64 = "x86_64 pf \<and> loader_signature ei = EFI64_LOADER_SIGNATURE pf
                \<and> efi64_system_table_addr pf ei \<noteq> 0"
  have b32: "find_smbios_adr_path pf ei m =
        map_option (Pair EFI32)
          (find_smbios_in_efi32_system_table pf (efi32_system_table_addr pf ei))"
    if ?t32
    using that by (simp add: find_smbios_adr_path_def)
  have b64: "find_smbios_adr_path pf ei m =
        map_option (Pair EFI64)
          (find_smbios_in_efi64_system_table pf (efi64_system_table_addr pf ei))"
    if "\<not> ?t32 \<and> ?t64"
    using that by (auto simp add: find_smbios_adr_path_def)
  have c32: "find_smbios_in_efi32_system_table pf sta = Some 0"
    if "map_region pf (config_tables (efi32_system_table pf sta))
          ((num_config_tables (efi32_system_table pf sta) * sizeof_efi32_config_table_t pf)
             mod size_t_max pf) True = 0"
    using that by (simp add: find_smbios_in_efi32_system_table_def Let_def)
  have c64: "find_smbios_in_efi64_system_table pf sta = Some 0"
    if "map_region pf (config_tables (efi64_system_table pf sta))
          ((num_config_tables (efi64_system_table pf sta) * sizeof_efi64_config_table_t pf)
             mod size_t_max pf) True = 0"
    using that by (simp add: find_smbios_in_efi64_system_table_def Let_def)
  have scan: "find_smbios_adr_path pf ei m = Some (BIOS, bios_scan m 0xF0000)"
    if "\<not> ?t32 \<and> \<not> ?t64"
    using that by (auto simp add: find_smbios_adr_path_def)
  have s32: "find_smbios_adr_path pf ei m = Some (BIOS, bios_scan m 0xF0000)"
    if "loader_signature ei = EFI32_LOADER_SIGNATURE pf
        \<and> loader_signature ei \<noteq> EFI64_LOADER_SIGNATURE pf
        \<and> efi32_system_table_addr pf ei = 0"
    using that by (intro scan) auto
  have s32': "find_smbios_adr_path pf ei m = Some (BIOS, bios_scan m 0xF0000)"
    if "loader_signature ei = EFI32_LOADER_SIGNATURE pf \<and> \<not> x86_64 pf
        \<and> efi32_system_table_addr pf ei = 0"
    using that by (intro scan) auto
  have s64: "find_smbios_adr_path pf ei m = Some (BIOS, bios_scan m 0xF0000)"
    if "x86_64 pf \<and> loader_signature ei = EFI64_LOADER_SIGNATURE pf
        \<and> loader_signature ei \<noteq> EFI32_LOADER_SIGNATURE pf
        \<and> efi64_system_table_addr pf ei = 0"
    using that by (intro scan) auto
  from b32 b64 c32 c64 scan s32 s32' s64 show ?thesis by blast
qed

theorem efi_precedes_legacy_scan_witness:
  "loader_signature efi32_info = EFI32_LOADER_SIGNATURE system_table_platform
   \<and> efi32_system_table_addr system_table_platform efi32_info = 0x1000
   \<and> find_smbios_adr_path system_table_platform efi32_info mem_anchor_low = Some (EFI32, 0)
   \<and> bios_scan mem_anchor_low 0xF0000 = 0xF0000
   \<and> loader_signature efi32_info \<noteq> EFI64_LOADER_SIGNATURE unmapped_platform
   \<and> efi32_system_table_addr unmapped_platform efi32_info = 0
   \<and> find_smbios_adr_path unmapped_platform efi32_info mem_anchor_low = Some (BIOS, 0xF0000)
   \<and> efi32_system_table_addr high_mapping_platform efi32_info = 0
   \<and> efi64_system_table_addr high_mapping_platform efi32_info = 0x1000
   \<and> find_smbios_adr_path high_mapping_platform efi32_info mem_anchor_low
         = Some (BIOS, 0xF0000)"
proof -
  have sig: "loader_signature efi32_info = EFI32_LOADER_SIGNATURE system_table_platform"
    "loader_signature efi32_info = EFI32_LOADER_SIGNATURE unmapped_platform"
    "loader_signature efi32_info = EFI32_LOADER_SIGNATURE high_mapping_platform"
    "loader_signature efi32_info \<noteq> EFI64_LOADER_SIGNATURE unmapped_platform"
    "loader_signature efi32_info \<noteq> EFI64_LOADER_SIGNATURE high_mapping_platform"
    by (simp_all add: efi32_info_def system_table_platform_def unmapped_platform_def
        high_mapping_platform_def)
  have sta: "efi32_system_table_addr system_table_platform efi32_info = 0x1000"
    by (simp add: efi32_system_table_addr_def efi32_info_def system_table_platform_def
        unmapped_platform_def)
  have cfg: "map_region system_table_platform
      (config_tables (efi32_system_table system_table_platform 0x1000))
      ((num_config_tables (efi32_system_table system_table_platform 0x1000)
          * sizeof_efi32_config_table_t system_table_platform)
         mod size_t_max system_table_platform) True = 0"
    by (simp add: system_table_platform_def unmapped_platform_def)
  have off: "efi32_system_table_addr unmapped_platform efi32_info = 0"
    by (simp add: efi32_system_table_addr_def unmapped_platform_def)
  have high: "efi32_system_table_addr high_mapping_platform efi32_info = 0"
    "efi64_system_table_addr high_mapping_platform efi32_info = 0x1000"
    by (simp_all add: efi32_system_table_addr_def efi64_system_table_addr_def
        high_mapping_platform_def unmapped_platform_def efi32_info_def)
  from efi_precedes_legacy_scan
         [of efi32_info system_table_platform mem_anchor_low "0x1000"]
       efi_precedes_legacy_scan [of efi32_info unmapped_platform mem_anchor_low 0]
       efi_precedes_legacy_scan [of efi32_info high_mapping_platform mem_anchor_low 0]
       sig sta cfg off high bios_scan_anchor_low
  show ?thesis by simp
qed

subsection \<open>The structures a walk visits\<close>

lemma abs_walk_take:
  "tstruct_count s \<le> ns \<Longrightarrow>
   abs_walk ns p ss s = abs_walk ns p (take (Suc ns - tstruct_count s) ss) s"
proof (induction ss arbitrary: p s)
  case Nil
  then show ?case by simp
next
  case (Cons x xs)
  let ?s1 = "\<lparr>dmi_system_info = (if stype x = 2 then p else dmi_system_info s),
              tstruct_count = tstruct_count s + 1,
              reads = reads s \<union> struct_reads p x\<rparr>"
  from Cons.prems obtain d where d: "Suc ns - tstruct_count s = Suc d"
    and d': "d = ns - tstruct_count s"
    by (cases "Suc ns - tstruct_count s") auto
  show ?case
  proof (cases "tstruct_count s + 1 > ns")
    case True
    then show ?thesis unfolding d by simp
  next
    case False
    then have "tstruct_count ?s1 \<le> ns" by simp
    then have "abs_walk ns (p + length (spec_encode_struct x)) xs ?s1
        = abs_walk ns (p + length (spec_encode_struct x))
            (take (Suc ns - tstruct_count ?s1) xs) ?s1"
      by (rule Cons.IH)
    moreover have "Suc ns - tstruct_count ?s1 = d" using d' by simp
    ultimately show ?thesis using False unfolding d by simp
  qed
qed

lemma abs_walk_reads_exact:
  "tstruct_count s + length ss \<le> ns + 1 \<Longrightarrow>
   reads (snd (abs_walk ns p ss s)) = reads s \<union> table_reads p ss"
proof (induction ss arbitrary: p s)
  case Nil
  then show ?case by simp
next
  case (Cons x xs)
  let ?s1 = "\<lparr>dmi_system_info = (if stype x = 2 then p else dmi_system_info s),
              tstruct_count = tstruct_count s + 1,
              reads = reads s \<union> struct_reads p x\<rparr>"
  show ?case
  proof (cases "tstruct_count s + 1 > ns")
    case True
    with Cons.prems have "xs = []" by (cases xs) auto
    with True show ?thesis by simp
  next
    case False
    from Cons.prems have "tstruct_count ?s1 + length xs \<le> ns + 1" by simp
    then have "reads (snd (abs_walk ns (p + length (spec_encode_struct x)) xs ?s1))
        = reads ?s1 \<union> table_reads (p + length (spec_encode_struct x)) xs"
      by (rule Cons.IH)
    with False show ?thesis by (simp add: Un_assoc)
  qed
qed

lemma table_reads_inside:
  "table_reads p ss \<subseteq> {p ..< p + length (spec_encode_table ss)}"
proof (induction ss arbitrary: p)
  case Nil
  then show ?case by simp
next
  case (Cons x xs)
  let ?e = "length (spec_encode_struct x)"
  have "table_reads (p + ?e) xs \<subseteq> {p + ?e ..< p + ?e + length (spec_encode_table xs)}"
    by (rule Cons.IH)
  moreover have "struct_reads p x \<subseteq> {p ..< p + ?e}"
    by (rule struct_reads_inside)
  ultimately have "struct_reads p x \<union> table_reads (p + ?e) xs
      \<subseteq> {p ..< p + ?e + length (spec_encode_table xs)}"
    by auto
  then show ?case by (simp add: encode_table_Cons add.assoc)
qed

lemma struct_reads_last: "p + length (spec_encode_struct x) - 1 \<in> struct_reads p x"
  using string_area_length [of "strings x"]
  by (auto simp add: struct_reads_def spec_encode_struct_def)

lemma table_reads_last:
  "ss \<noteq> [] \<Longrightarrow> p + length (spec_encode_table ss) - 1 \<in> table_reads p ss"
proof (induction ss arbitrary: p rule: list_nonempty_induct)
  case (single x)
  from struct_reads_last [of p x] show ?case by (simp add: spec_encode_table_def)
next
  case (cons x xs)
  let ?e = "length (spec_encode_struct x)"
  have "p + ?e + length (spec_encode_table xs) - 1 \<in> table_reads (p + ?e) xs"
    by (rule cons.IH)
  then show ?case by (simp add: encode_table_Cons add.assoc)
qed

lemma struct_addr_take:
  "k \<le> n \<Longrightarrow> struct_addr p (take n ss) k = struct_addr p ss k"
  by (simp add: struct_addr_def min_def)

lemma struct_addr_mono: "p \<le> struct_addr p ss k"
  by (simp add: struct_addr_def)

text \<open>
  The walk with any loop bound: when the guard fires inside the table and the
  structure at which it fires begins before the bound, \<open>table_walk\<close> returns what the
  walk over the abstract table gives.
\<close>

lemma table_walk_prefix:
  assumes "\<forall>x \<in> set ss. wf_tstruct x" and "loaded m p (spec_encode_table ss)"
    and "tstruct_count s \<le> ns" and "ns < tstruct_count s + length ss"
    and "struct_addr p ss (ns - tstruct_count s) < table_end"
  shows "table_walk m table_end ns p s = Some (abs_walk ns p ss s)"
  using assms
proof (induction ss arbitrary: p s)
  case Nil
  then show ?case by simp
next
  case (Cons x xs)
  let ?e = "length (spec_encode_struct x)"
  let ?s1 = "\<lparr>dmi_system_info = (if stype x = 2 then p else dmi_system_info s),
              tstruct_count = tstruct_count s + 1,
              reads = reads s \<union> struct_reads p x\<rparr>"
  from Cons.prems have wf: "wf_tstruct x" and wfs: "\<forall>x \<in> set xs. wf_tstruct x"
    and ld: "loaded m p (spec_encode_struct x)"
    and lds: "loaded m (p + ?e) (spec_encode_table xs)"
    by (simp_all add: encode_table_Cons loaded_append)
  from Cons.prems(5) struct_addr_mono [of p "x # xs" "ns - tstruct_count s"]
  have inside: "p < table_end" by simp
  note step = table_walk_struct [OF wf ld inside, of ns s]
  show ?case
  proof (cases "tstruct_count s + 1 > ns")
    case True
    with step show ?thesis by simp
  next
    case False
    then obtain d where d: "ns - tstruct_count s = Suc d" and d': "d = ns - tstruct_count ?s1"
      by (cases "ns - tstruct_count s") auto
    have "table_walk m table_end ns (p + ?e) ?s1 = Some (abs_walk ns (p + ?e) xs ?s1)"
    proof (rule Cons.IH [OF wfs lds])
      from False show "tstruct_count ?s1 \<le> ns" by simp
      from Cons.prems(4) show "ns < tstruct_count ?s1 + length xs" by simp
      from Cons.prems(5) show "struct_addr (p + ?e) xs (ns - tstruct_count ?s1) < table_end"
        unfolding d d' [symmetric] by (simp add: struct_addr_Suc)
    qed
    with False step show ?thesis by simp
  qed
qed

text \<open>
  C5, amended. On a table of well-formed structures that fills the declared length
  the walk visits the first \<open>numstructs + 1\<close> structures, or all of them when there
  are fewer, and reads the headers and string areas of those alone. It leaves the
  global pointer at the last structure of type 2 among the visited ones (the only
  one, when there is exactly one), and as it was when none of them has type 2: a
  structure of type 2 beyond the first \<open>numstructs + 1\<close> is not reached. It returns
  0 when \<open>numstructs\<close> is at least the number of structures, and -1 otherwise.
\<close>

theorem walk_records_last_type2:
  assumes "\<forall>x \<in> set ss. wf_tstruct x"
    and "loaded m table_start (spec_encode_table ss)"
    and "tablelength = length (spec_encode_table ss)"
  shows "\<exists>r s'. table_walk m (table_start + tablelength) numstructs table_start
                  \<lparr>dmi_system_info = g0, tstruct_count = 0, reads = {}\<rparr> = Some (r, s')
           \<and> r = (if length ss \<le> numstructs then 0 else - 1)
           \<and> tstruct_count s' = min (length ss) (numstructs + 1)
           \<and> reads s' = table_reads table_start (take (numstructs + 1) ss)
           \<and> (\<forall>a \<in> reads s'. table_start \<le> a
                  \<and> a < struct_addr table_start ss (numstructs + 1))
           \<and> (\<forall>k. k < length ss \<and> k \<le> numstructs \<and> stype (ss ! k) = 2
                  \<and> (\<forall>j. k < j \<and> j < length ss \<and> j \<le> numstructs \<longrightarrow> stype (ss ! j) \<noteq> 2)
                \<longrightarrow> dmi_system_info s' = struct_addr table_start ss k)
           \<and> ((\<forall>j. j < length ss \<and> j \<le> numstructs \<longrightarrow> stype (ss ! j) \<noteq> 2)
                \<longrightarrow> dmi_system_info s' = g0)"
proof -
  let ?s0 = "\<lparr>dmi_system_info = g0, tstruct_count = 0, reads = {}\<rparr>"
  let ?vis = "take (Suc numstructs) ss"
  let ?res = "abs_walk numstructs table_start ss ?s0"
  have walk: "table_walk m (table_start + tablelength) numstructs table_start ?s0
                = Some (fst ?res, snd ?res)"
    unfolding assms(3) using assms(1,2) by (simp add: table_walk_encoded)
  have vis: "?res = abs_walk numstructs table_start ?vis ?s0"
    using abs_walk_take [of ?s0 numstructs table_start ss] by simp
  have ret: "fst ?res = (if length ss \<le> numstructs then 0 else - 1)"
    and cnt: "tstruct_count (snd ?res) = min (length ss) (numstructs + 1)"
    using abs_walk_complete [of ?s0 ss numstructs table_start]
      abs_walk_guard [of ?s0 numstructs ss table_start]
    by (cases "length ss \<le> numstructs"; simp)+
  have rd: "reads (snd ?res) = table_reads table_start (take (numstructs + 1) ss)"
    unfolding vis using abs_walk_reads_exact [of ?s0 ?vis numstructs table_start] by simp
  have bound: "\<forall>a \<in> reads (snd ?res). table_start \<le> a
                  \<and> a < struct_addr table_start ss (numstructs + 1)"
    unfolding rd using table_reads_inside [of table_start "take (numstructs + 1) ss"]
    by (auto simp add: struct_addr_def)
  have last: "dmi_system_info (snd ?res) = struct_addr table_start ss k"
    if k: "k < length ss \<and> k \<le> numstructs \<and> stype (ss ! k) = 2
           \<and> (\<forall>j. k < j \<and> j < length ss \<and> j \<le> numstructs \<longrightarrow> stype (ss ! j) \<noteq> 2)" for k
  proof -
    have "dmi_system_info (snd (abs_walk numstructs table_start ?vis ?s0))
            = struct_addr table_start ?vis k"
    proof (rule abs_walk_last)
      from k show "k < length ?vis" by simp
      from k show "stype (?vis ! k) = 2" by simp
      from k show "\<forall>j. k < j \<and> j < length ?vis \<longrightarrow> stype (?vis ! j) \<noteq> 2" by simp
      from k show "tstruct_count ?s0 + k \<le> numstructs" by simp
    qed
    moreover from k have "struct_addr table_start ?vis k = struct_addr table_start ss k"
      by (intro struct_addr_take) simp
    ultimately show ?thesis unfolding vis by simp
  qed
  have none: "dmi_system_info (snd ?res) = g0"
    if no2: "\<forall>j. j < length ss \<and> j \<le> numstructs \<longrightarrow> stype (ss ! j) \<noteq> 2"
  proof -
    have "\<forall>x \<in> set ?vis. stype x \<noteq> 2"
    proof
      fix x assume "x \<in> set ?vis"
      then obtain j where "j < length ?vis" and "x = ?vis ! j"
        by (auto simp add: in_set_conv_nth)
      with no2 show "stype x \<noteq> 2" by simp
    qed
    from abs_walk_no_type2 [OF this, of numstructs table_start ?s0]
    show ?thesis unfolding vis by simp
  qed
  from walk ret cnt rd bound last none show ?thesis by blast
qed

theorem walk_records_last_type2_witness:
  "list_all wf_tstruct example_table
   \<and> loaded example_table_mem 0x2000 (spec_encode_table example_table)
   \<and> map stype example_table = [2, 1, 2]
   \<and> (\<exists>s'. table_walk example_table_mem (0x2000 + 38) 3 0x2000
                 \<lparr>dmi_system_info = 0, tstruct_count = 0, reads = {}\<rparr> = Some (0, s')
          \<and> tstruct_count s' = 3 \<and> dmi_system_info s' = 0x201C)
   \<and> (\<exists>s'. table_walk example_table_mem (0x2000 + 38) 1 0x2000
                 \<lparr>dmi_system_info = 0, tstruct_count = 0, reads = {}\<rparr> = Some (- 1, s')
          \<and> tstruct_count s' = 2 \<and> dmi_system_info s' = 0x2000)
   \<and> list_all wf_tstruct short_count_table
   \<and> loaded short_count_mem 0x2000 (spec_encode_table short_count_table)
   \<and> map stype short_count_table = [1, 2]
   \<and> (\<exists>s'. table_walk short_count_mem (0x2000 + 12) 0 0x2000
                 \<lparr>dmi_system_info = 7, tstruct_count = 0, reads = {}\<rparr> = Some (- 1, s')
          \<and> tstruct_count s' = 1 \<and> dmi_system_info s' = 7)"
proof -
  let ?s0 = "\<lparr>dmi_system_info = 0, tstruct_count = 0, reads = {}\<rparr>"
  have ld: "loaded example_table_mem 0x2000 (spec_encode_table example_table)"
    unfolding example_table_mem_def by (rule loaded_first_region)
  have len: "38 = length (spec_encode_table example_table)"
    by (simp add: example_table_facts(2))
  have ld': "loaded short_count_mem 0x2000 (spec_encode_table short_count_table)"
    unfolding short_count_mem_def by (rule loaded_first_region)
  have len': "12 = length (spec_encode_table short_count_table)"
    by (simp add: short_count_table_facts(2))
  have types: "length example_table = 3" "stype (example_table ! 0) = 2"
    "stype (example_table ! 1) = 1" "stype (example_table ! 2) = 2"
    "length short_count_table = 2" "stype (short_count_table ! 0) = 1"
    "stype (short_count_table ! 1) = 2"
    by (simp_all add: example_table_def short_count_table_def)
  have later2: "\<forall>j. 2 < j \<and> j < length example_table \<and> j \<le> 3
                   \<longrightarrow> stype (example_table ! j) \<noteq> 2"
    unfolding types by arith
  have later0: "\<forall>j. 0 < j \<and> j < length example_table \<and> j \<le> 1
                   \<longrightarrow> stype (example_table ! j) \<noteq> 2"
  proof (intro allI impI)
    fix j :: nat assume "0 < j \<and> j < length example_table \<and> j \<le> 1"
    then have "j = 1" by simp
    with types show "stype (example_table ! j) \<noteq> 2" by simp
  qed
  have none0: "\<forall>j. j < length short_count_table \<and> j \<le> 0
                   \<longrightarrow> stype (short_count_table ! j) \<noteq> 2"
    by (simp add: types)
  from walk_records_last_type2 [OF example_table_facts(1) ld len, of 3 0]
  obtain r s' where "table_walk example_table_mem (0x2000 + 38) 3 0x2000 ?s0 = Some (r, s')"
    and "r = (if length example_table \<le> 3 then 0 else - 1)"
    and "tstruct_count s' = min (length example_table) (3 + 1)"
    and ptr: "\<forall>k. k < length example_table \<and> k \<le> 3 \<and> stype (example_table ! k) = 2
            \<and> (\<forall>j. k < j \<and> j < length example_table \<and> j \<le> 3
                   \<longrightarrow> stype (example_table ! j) \<noteq> 2)
          \<longrightarrow> dmi_system_info s' = struct_addr 0x2000 example_table k"
    by blast
  moreover from ptr [rule_format, of 2] later2 types
  have "dmi_system_info s' = struct_addr 0x2000 example_table 2" by simp
  ultimately
  have a: "\<exists>s'. table_walk example_table_mem (0x2000 + 38) 3 0x2000 ?s0 = Some (0, s')
          \<and> tstruct_count s' = 3 \<and> dmi_system_info s' = 0x201C"
    using types example_table_facts(3) by simp
  from walk_records_last_type2 [OF example_table_facts(1) ld len, of 1 0]
  obtain r s' where "table_walk example_table_mem (0x2000 + 38) 1 0x2000 ?s0 = Some (r, s')"
    and "r = (if length example_table \<le> 1 then 0 else - 1)"
    and "tstruct_count s' = min (length example_table) (1 + 1)"
    and ptr: "\<forall>k. k < length example_table \<and> k \<le> 1 \<and> stype (example_table ! k) = 2
            \<and> (\<forall>j. k < j \<and> j < length example_table \<and> j \<le> 1
                   \<longrightarrow> stype (example_table ! j) \<noteq> 2)
          \<longrightarrow> dmi_system_info s' = struct_addr 0x2000 example_table k"
    by blast
  moreover from ptr [rule_format, of 0] later0 types
  have "dmi_system_info s' = struct_addr 0x2000 example_table 0" by simp
  ultimately
  have b: "\<exists>s'. table_walk example_table_mem (0x2000 + 38) 1 0x2000 ?s0 = Some (- 1, s')
          \<and> tstruct_count s' = 2 \<and> dmi_system_info s' = 0x2000"
    using types by (simp add: struct_addr_0)
  from walk_records_last_type2 [OF short_count_table_facts(1) ld' len', of 0 7]
  obtain r s' where "table_walk short_count_mem (0x2000 + 12) 0 0x2000
        \<lparr>dmi_system_info = 7, tstruct_count = 0, reads = {}\<rparr> = Some (r, s')"
    and "r = (if length short_count_table \<le> 0 then 0 else - 1)"
    and "tstruct_count s' = min (length short_count_table) (0 + 1)"
    and unset: "(\<forall>j. j < length short_count_table \<and> j \<le> 0
                   \<longrightarrow> stype (short_count_table ! j) \<noteq> 2)
          \<longrightarrow> dmi_system_info s' = 7"
    by blast
  moreover from unset none0 have "dmi_system_info s' = 7" by blast
  ultimately
  have c: "\<exists>s'. table_walk short_count_mem (0x2000 + 12) 0 0x2000
        \<lparr>dmi_system_info = 7, tstruct_count = 0, reads = {}\<rparr> = Some (- 1, s')
          \<and> tstruct_count s' = 1 \<and> dmi_system_info s' = 7"
    using types by simp
  from a b c ld ld' example_table_facts(1) short_count_table_facts(1)
  show ?thesis
    by (simp add: list_all_iff) (simp add: example_table_def short_count_table_def)
qed

lemma cut_table_facts:
  "\<forall>x \<in> set (cut_table L). wf_tstruct x"
  "length (cut_table L) = 2"
  "struct_addr 0x2000 (cut_table L) 1 = 0x2006"
  "struct_addr 0x2000 (cut_table L) 2 = 0x200A + L + 3"
  by (simp_all add: cut_table_def wf_tstruct_def wf_strings_def
      spec_encode_table_def spec_encode_struct_def spec_fixed_part_def
      spec_string_area_def struct_addr_def)

lemma cut_table_walk:
  "\<exists>s'. table_walk (cut_table_mem L) (0x2000 + 10) 1 0x2000
           \<lparr>dmi_system_info = 0, tstruct_count = 0, reads = {}\<rparr> = Some (- 1, s')
     \<and> tstruct_count s' = 2 \<and> 0x2000 + 10 + L + 2 \<in> reads s'"
proof -
  let ?s0 = "\<lparr>dmi_system_info = 0, tstruct_count = 0, reads = {}\<rparr>"
  let ?x = "\<lparr>stype = 1, handle = 0, fixed_fields = [], strings = []\<rparr>"
  let ?y = "\<lparr>stype = 1, handle = 1, fixed_fields = [],
             strings = [replicate (Suc L) 0x41]\<rparr>"
  let ?s1 = "\<lparr>dmi_system_info = 0, tstruct_count = 1,
              reads = struct_reads 0x2000 ?x\<rparr>"
  have tab: "cut_table L = [?x, ?y]" by (simp add: cut_table_def)
  have ex: "length (spec_encode_struct ?x) = 6"
    and ey: "length (spec_encode_struct ?y) = L + 7"
    by (simp_all add: spec_encode_struct_def spec_fixed_part_def spec_string_area_def)
  have wf: "wf_tstruct ?x" "wf_tstruct ?y"
    using cut_table_facts(1) [of L] by (simp_all add: tab)
  have "loaded (cut_table_mem L) 0x2000 (spec_encode_table (cut_table L))"
    unfolding cut_table_mem_def by (rule loaded_first_region)
  then have ldx: "loaded (cut_table_mem L) 0x2000 (spec_encode_struct ?x)"
    and ldy: "loaded (cut_table_mem L) 0x2006 (spec_encode_struct ?y)"
    by (simp_all add: tab encode_table_Cons loaded_append ex)
  have "table_walk (cut_table_mem L) (0x2000 + 10) 1 0x2000 ?s0
          = table_walk (cut_table_mem L) (0x2000 + 10) 1 0x2006 ?s1"
    using table_walk_struct [OF wf(1) ldx, of "0x2000 + 10" 1 ?s0] by (simp add: ex)
  also have "\<dots> = Some (- 1, \<lparr>dmi_system_info = 0, tstruct_count = 2,
                 reads = struct_reads 0x2000 ?x \<union> struct_reads 0x2006 ?y\<rparr>)"
    using table_walk_struct [OF wf(2) ldy, of "0x2000 + 10" 1 ?s1] by simp
  finally have walk: "table_walk (cut_table_mem L) (0x2000 + 10) 1 0x2000 ?s0
      = Some (- 1, \<lparr>dmi_system_info = 0, tstruct_count = 2,
                 reads = struct_reads 0x2000 ?x \<union> struct_reads 0x2006 ?y\<rparr>)" .
  have "0x2006 + length (spec_encode_struct ?y) - 1 \<in> struct_reads 0x2006 ?y"
    by (rule struct_reads_last)
  then have "0x2000 + 10 + L + 2 \<in> struct_reads 0x2006 ?y"
    unfolding ey by simp
  with walk show ?thesis by simp
qed

text \<open>
  C6 as stated fails: two well-formed structures begin before the end of a table of
  declared length 10 with \<open>numstructs = 1\<close>; the second has a string of \<open>L + 1\<close>
  bytes behind its fixed portion, where the declared length ends. The walk returns
  -1 at the second structure, after reading its string area up to the second
  terminating NUL, \<open>L + 2\<close> bytes past the declared end: for every \<open>L\<close>, so no slack
  bounds the overrun. At \<open>L = 250\<close> the address is 0x2106.
\<close>

theorem guard_abort_reads_past_table:
  "(\<forall>L. list_all wf_tstruct (cut_table L)
        \<and> loaded (cut_table_mem L) 0x2000 (spec_encode_table (cut_table L))
        \<and> struct_addr 0x2000 (cut_table L) 1 < 0x2000 + 10
        \<and> (\<exists>s'. table_walk (cut_table_mem L) (0x2000 + 10) 1 0x2000
                    \<lparr>dmi_system_info = 0, tstruct_count = 0, reads = {}\<rparr> = Some (- 1, s')
               \<and> tstruct_count s' = 2 \<and> 0x2000 + 10 + L + 2 \<in> reads s'))
   \<and> (\<exists>s'. table_walk (cut_table_mem 250) (0x2000 + 10) 1 0x2000
                \<lparr>dmi_system_info = 0, tstruct_count = 0, reads = {}\<rparr> = Some (- 1, s')
          \<and> 0x2106 \<in> reads s')"
proof -
  have family: "list_all wf_tstruct (cut_table L)
        \<and> loaded (cut_table_mem L) 0x2000 (spec_encode_table (cut_table L))
        \<and> struct_addr 0x2000 (cut_table L) 1 < 0x2000 + 10
        \<and> (\<exists>s'. table_walk (cut_table_mem L) (0x2000 + 10) 1 0x2000
                    \<lparr>dmi_system_info = 0, tstruct_count = 0, reads = {}\<rparr> = Some (- 1, s')
               \<and> tstruct_count s' = 2 \<and> 0x2000 + 10 + L + 2 \<in> reads s')" for L
  proof -
    have "loaded (cut_table_mem L) 0x2000 (spec_encode_table (cut_table L))"
      unfolding cut_table_mem_def by (rule loaded_first_region)
    with cut_table_facts(1,3) [of L] cut_table_walk [of L] show ?thesis
      by (simp add: list_all_iff)
  qed
  from cut_table_walk [of 250]
  have "\<exists>s'. table_walk (cut_table_mem 250) (0x2000 + 10) 1 0x2000
                \<lparr>dmi_system_info = 0, tstruct_count = 0, reads = {}\<rparr> = Some (- 1, s')
          \<and> 0x2106 \<in> reads s'"
    by auto
  with family show ?thesis by blast
qed

text \<open>
  C6, amended. On a table of well-formed structures of which more than \<open>numstructs\<close>
  begin before \<open>table_start + tablelength\<close>, the walk returns -1 when its count
  reaches \<open>numstructs + 1\<close>, having read, through \<^verbatim>\<open>dmi\<close>, exactly the headers and
  string areas of the first \<open>numstructs + 1\<close> structures: every address read lies in
  the table below the end of structure \<open>numstructs + 1\<close>, whose last byte, the second
  terminating NUL, is read. When the declared length reaches that end, nothing at or
  past \<open>table_start + tablelength\<close> is read; when it ends inside that structure the
  walk reads on to the end of the string area, however long.
\<close>

theorem guard_aborts_inside_table:
  assumes "\<forall>x \<in> set ss. wf_tstruct x"
    and "loaded m table_start (spec_encode_table ss)"
    and "numstructs < length ss"
    and "struct_addr table_start ss numstructs < table_start + tablelength"
  shows "\<exists>s'. table_walk m (table_start + tablelength) numstructs table_start
                \<lparr>dmi_system_info = g0, tstruct_count = 0, reads = {}\<rparr> = Some (- 1, s')
           \<and> tstruct_count s' = numstructs + 1
           \<and> reads s' = table_reads table_start (take (numstructs + 1) ss)
           \<and> (\<forall>a \<in> reads s'. table_start \<le> a
                  \<and> a < struct_addr table_start ss (numstructs + 1))
           \<and> struct_addr table_start ss (numstructs + 1) - 1 \<in> reads s'
           \<and> (struct_addr table_start ss (numstructs + 1) \<le> table_start + tablelength
                \<longrightarrow> (\<forall>a \<in> reads s'. a < table_start + tablelength))"
proof -
  let ?s0 = "\<lparr>dmi_system_info = g0, tstruct_count = 0, reads = {}\<rparr>"
  let ?vis = "take (Suc numstructs) ss"
  let ?res = "abs_walk numstructs table_start ss ?s0"
  have walk: "table_walk m (table_start + tablelength) numstructs table_start ?s0
                = Some (fst ?res, snd ?res)"
    using table_walk_prefix [OF assms(1,2), of ?s0 numstructs "table_start + tablelength"]
      assms(3,4)
    by simp
  have guard: "fst ?res = - 1" "tstruct_count (snd ?res) = numstructs + 1"
    using abs_walk_guard [of ?s0 numstructs ss table_start] assms(3) by simp_all
  have vis: "?res = abs_walk numstructs table_start ?vis ?s0"
    using abs_walk_take [of ?s0 numstructs table_start ss] by simp
  have rd: "reads (snd ?res) = table_reads table_start ?vis"
    unfolding vis using abs_walk_reads_exact [of ?s0 ?vis numstructs table_start] by simp
  have ends: "struct_addr table_start ss (numstructs + 1)
                = table_start + length (spec_encode_table ?vis)"
    by (simp add: struct_addr_def)
  from assms(3) have ne: "?vis \<noteq> []" by auto
  have inside: "\<forall>a \<in> reads (snd ?res). table_start \<le> a
                  \<and> a < struct_addr table_start ss (numstructs + 1)"
    unfolding rd ends using table_reads_inside [of table_start ?vis] by auto
  have last: "struct_addr table_start ss (numstructs + 1) - 1 \<in> reads (snd ?res)"
    unfolding rd ends using ne by (rule table_reads_last)
  from inside
  have aligned: "\<forall>a \<in> reads (snd ?res). a < table_start + tablelength"
    if "struct_addr table_start ss (numstructs + 1) \<le> table_start + tablelength"
    using that by auto
  from walk guard rd inside last aligned show ?thesis by simp
qed

theorem guard_aborts_inside_table_witness:
  "list_all wf_tstruct example_table
   \<and> loaded example_table_mem 0x2000 (spec_encode_table example_table)
   \<and> length example_table = 3
   \<and> struct_addr 0x2000 example_table 1 = 0x2016
   \<and> struct_addr 0x2000 example_table 2 = 0x201C
   \<and> (\<exists>s'. table_walk example_table_mem (0x2000 + 38) 1 0x2000
                 \<lparr>dmi_system_info = 0, tstruct_count = 0, reads = {}\<rparr> = Some (- 1, s')
          \<and> tstruct_count s' = 2 \<and> reads s' \<subseteq> {0x2000 ..< 0x201C} \<and> 0x201B \<in> reads s'
          \<and> reads s' \<subseteq> {0x2000 ..< 0x2000 + 38})
   \<and> (\<exists>s'. table_walk example_table_mem (0x2000 + 24) 1 0x2000
                 \<lparr>dmi_system_info = 0, tstruct_count = 0, reads = {}\<rparr> = Some (- 1, s')
          \<and> tstruct_count s' = 2 \<and> 0x201B \<in> reads s')"
proof -
  have ld: "loaded example_table_mem 0x2000 (spec_encode_table example_table)"
    unfolding example_table_mem_def by (rule loaded_first_region)
  have more: "1 < length example_table" "length example_table = 3"
    by (simp_all add: example_table_def)
  have addr: "struct_addr 0x2000 example_table 1 = 0x2016"
    "struct_addr 0x2000 example_table (1 + 1) = 0x201C"
    by (simp_all add: example_table_def str_Acme_def
      str_Board_X_def spec_encode_table_def spec_encode_struct_def spec_fixed_part_def
      spec_string_area_def struct_addr_def)
  have before: "struct_addr 0x2000 example_table 1 < 0x2000 + 38"
    "struct_addr 0x2000 example_table 1 < 0x2000 + 24"
    unfolding addr by simp_all
  from guard_aborts_inside_table [OF example_table_facts(1) ld more(1) before(1), of 0]
  have whole: "\<exists>s'. table_walk example_table_mem (0x2000 + 38) 1 0x2000
                 \<lparr>dmi_system_info = 0, tstruct_count = 0, reads = {}\<rparr> = Some (- 1, s')
          \<and> tstruct_count s' = 2 \<and> reads s' \<subseteq> {0x2000 ..< 0x201C} \<and> 0x201B \<in> reads s'
          \<and> reads s' \<subseteq> {0x2000 ..< 0x2000 + 38}"
    unfolding addr by (auto simp add: numeral_2_eq_2)
  from guard_aborts_inside_table [OF example_table_facts(1) ld more(1) before(2), of 0]
  have cut: "\<exists>s'. table_walk example_table_mem (0x2000 + 24) 1 0x2000
                 \<lparr>dmi_system_info = 0, tstruct_count = 0, reads = {}\<rparr> = Some (- 1, s')
          \<and> tstruct_count s' = 2 \<and> 0x201B \<in> reads s'"
    unfolding addr by (auto simp add: numeral_2_eq_2)
  from whole cut example_table_facts(1) ld more(2) addr show ?thesis
    by (simp add: list_all_iff numeral_2_eq_2)
qed

subsection \<open>Termination of the bounded scans\<close>











end
